theory Spec2Isabelle
  imports Complex_Main "HOL-Library.Multiset"
begin

section \<open>The dependency graph (package graph)\<close>

text \<open>
  Go panics that the modelled code can raise: an assignment into a nil map, and a slice
  expression whose bound is out of range.
\<close>

datatype go_panic = NilMapAssign | SliceBoundsOutOfRange

text \<open>
  \<^verbatim>\<open>type DependencyGraph struct\<close>. The Go type \<^verbatim>\<open>map[string]bool\<close> is used as a set
  throughout (only \<^verbatim>\<open>true\<close> is ever stored, a missing key reads as \<^verbatim>\<open>false\<close>), so
  \<open>Vertices\<close> and the inner adjacency maps are sets of strings. The outer adjacency maps
  are partial: a missing key is the nil inner map. The score type \<open>'f\<close> stands for
  \<^verbatim>\<open>float64\<close>; it is kept abstract so that results about the scorer hold for whatever the
  arithmetic on it does, and is instantiated with \<open>real\<close> where numbers are computed.
\<close>

record 'f DependencyGraph =
  Vertices :: "string set"
  Edges :: "(string \<times> string) list"
  adjacency :: "string \<rightharpoonup> string set"
  reverseAdj :: "string \<rightharpoonup> string set"
  PageRankScores :: "string \<rightharpoonup> 'f"

definition New :: "'f DependencyGraph" where
  "New = \<lparr>Vertices = {}, Edges = [], adjacency = Map.empty, reverseAdj = Map.empty,
          PageRankScores = Map.empty\<rparr>"

text \<open>Reading \<^verbatim>\<open>m[k]\<close> of a map of maps: a missing key yields the nil map, which reads as empty.\<close>

definition inner :: "(string \<rightharpoonup> string set) \<Rightarrow> string \<Rightarrow> string set" where
  "inner m k = (case m k of None \<Rightarrow> {} | Some s \<Rightarrow> s)"

definition AddVertex :: "'f DependencyGraph \<Rightarrow> string \<Rightarrow> 'f DependencyGraph" where
  "AddVertex g v =
     g\<lparr>Vertices := insert v (Vertices g),
       adjacency := (case adjacency g v of None \<Rightarrow> (adjacency g)(v \<mapsto> {}) | Some _ \<Rightarrow> adjacency g),
       reverseAdj := (case reverseAdj g v of None \<Rightarrow> (reverseAdj g)(v \<mapsto> {}) | Some _ \<Rightarrow> reverseAdj g)\<rparr>"

text \<open>
  \<^verbatim>\<open>AddEdge\<close>: the two early returns, then the append and the two index updates. Writing
  into \<^verbatim>\<open>g.adjacency[source]\<close> or \<^verbatim>\<open>g.reverseAdj[target]\<close> when that inner map is nil
  panics in Go.
\<close>

definition AddEdge :: "'f DependencyGraph \<Rightarrow> string \<Rightarrow> string \<Rightarrow> go_panic + 'f DependencyGraph" where
  "AddEdge g source target =
     (if source = target \<or> source \<notin> Vertices g \<or> target \<notin> Vertices g then Inr g
      else if target \<in> inner (adjacency g) source then Inr g
      else (case adjacency g source of
              None \<Rightarrow> Inl NilMapAssign
            | Some out \<Rightarrow>
                (case reverseAdj g target of
                   None \<Rightarrow> Inl NilMapAssign
                 | Some inc \<Rightarrow>
                     Inr (g\<lparr>Edges := Edges g @ [(source, target)],
                            adjacency := (adjacency g)(source \<mapsto> insert target out),
                            reverseAdj := (reverseAdj g)(target \<mapsto> insert source inc)\<rparr>))))"

definition OutDegree :: "'f DependencyGraph \<Rightarrow> string \<Rightarrow> int" where
  "OutDegree g v = int (card (inner (adjacency g) v))"

definition InDegree :: "'f DependencyGraph \<Rightarrow> string \<Rightarrow> int" where
  "InDegree g v = int (card (inner (reverseAdj g) v))"

text \<open>A caller's sequence of \<^verbatim>\<open>AddVertex\<close> and \<^verbatim>\<open>AddEdge\<close> calls; a panic ends the run.\<close>

datatype graph_op = OpAddVertex string | OpAddEdge string string

fun apply_op :: "'f DependencyGraph \<Rightarrow> graph_op \<Rightarrow> go_panic + 'f DependencyGraph" where
  "apply_op g (OpAddVertex v) = Inr (AddVertex g v)"
| "apply_op g (OpAddEdge s t) = AddEdge g s t"

fun run_ops :: "'f DependencyGraph \<Rightarrow> graph_op list \<Rightarrow> go_panic + 'f DependencyGraph" where
  "run_ops g [] = Inr g"
| "run_ops g (x # xs) = (case apply_op g x of Inl e \<Rightarrow> Inl e | Inr g' \<Rightarrow> run_ops g' xs)"

text \<open>
  The representation invariant of a graph built through the two operations: the inner
  maps exist exactly for the vertices and hold exactly the edge list's pairs, which are
  pairwise different, loop-free and between vertices.
\<close>

definition graph_inv :: "'f DependencyGraph \<Rightarrow> bool" where
  "graph_inv g \<longleftrightarrow>
     finite (Vertices g) \<and> distinct (Edges g) \<and>
     (\<forall>s t. (s, t) \<in> set (Edges g) \<longrightarrow> s \<noteq> t \<and> s \<in> Vertices g \<and> t \<in> Vertices g) \<and>
     (\<forall>v. adjacency g v = (if v \<in> Vertices g then Some {t. (v, t) \<in> set (Edges g)} else None)) \<and>
     (\<forall>v. reverseAdj g v = (if v \<in> Vertices g then Some {s. (s, v) \<in> set (Edges g)} else None))"

section \<open>The relevance scorer (PageRank)\<close>

text \<open>
  Go's \<^verbatim>\<open>range\<close> over a map visits every key once, in an order that is unspecified and
  may change from one loop to the next. \<open>range_of S ks\<close> says that \<open>ks\<close> is such a visiting
  order of the key set \<open>S\<close>.
\<close>

definition range_of :: "'a set \<Rightarrow> 'a list \<Rightarrow> bool" where
  "range_of S ks \<longleftrightarrow> distinct ks \<and> set ks = S"

text \<open>
  The visiting orders of the four \<^verbatim>\<open>range\<close> loops of \<^verbatim>\<open>computePageRank\<close>: the seeding
  loop, and in iteration \<open>i\<close> the loop that lays down the base mass, the loop over the
  vertices that push their share, and for vertex \<open>v\<close> the loop over its neighbours.
\<close>

record pr_schedule =
  seed_order :: "string list"
  base_order :: "int \<Rightarrow> string list"
  push_order :: "int \<Rightarrow> string list"
  nbr_order :: "int \<Rightarrow> string \<Rightarrow> string list"

definition valid_schedule :: "'f DependencyGraph \<Rightarrow> pr_schedule \<Rightarrow> bool" where
  "valid_schedule g sch \<longleftrightarrow>
     range_of (Vertices g) (seed_order sch) \<and>
     (\<forall>i. range_of (Vertices g) (base_order sch i) \<and>
          range_of (Vertices g) (push_order sch i) \<and>
          (\<forall>v. range_of (inner (adjacency g) v) (nbr_order sch i v)))"

text \<open>Reading \<^verbatim>\<open>scores[v]\<close>: a missing key reads as the zero value.\<close>

definition lookup0 :: "(string \<rightharpoonup> 'f::zero) \<Rightarrow> string \<Rightarrow> 'f" where
  "lookup0 m k = (case m k of None \<Rightarrow> 0 | Some x \<Rightarrow> x)"

text \<open>The innermost loop: \<^verbatim>\<open>newScores[neighbor] += damping * share\<close> for each neighbour.\<close>

definition pushShare :: "'f::{zero,plus} \<Rightarrow> string list \<Rightarrow> (string \<rightharpoonup> 'f) \<Rightarrow> (string \<rightharpoonup> 'f)" where
  "pushShare inc neighbors newScores =
     fold (\<lambda>neighbor m. m(neighbor \<mapsto> lookup0 m neighbor + inc)) neighbors newScores"

text \<open>
  The body of the loop over the pushing vertices: a vertex without neighbours is skipped,
  any other divides its current score by its out-degree. \<open>float64\<close> is the conversion
  \<^verbatim>\<open>float64(len(...))\<close>.
\<close>

definition pushVertex ::
  "(int \<Rightarrow> 'f) \<Rightarrow> pr_schedule \<Rightarrow> 'f DependencyGraph \<Rightarrow> 'f \<Rightarrow> int \<Rightarrow>
   (string \<rightharpoonup> 'f::{zero,plus,times,inverse}) \<Rightarrow> string \<Rightarrow> (string \<rightharpoonup> 'f) \<Rightarrow> (string \<rightharpoonup> 'f)" where
  "pushVertex float64 sch g damping i scores v newScores =
     (let neighbors = inner (adjacency g) v in
      if card neighbors = 0 then newScores
      else let share = lookup0 scores v / float64 (int (card neighbors))
           in pushShare (damping * share) (nbr_order sch i v) newScores)"

text \<open>One pass of the outer loop's body; \<open>n\<close> is the converted vertex count.\<close>

definition pr_iteration ::
  "(int \<Rightarrow> 'f) \<Rightarrow> pr_schedule \<Rightarrow> 'f DependencyGraph \<Rightarrow> 'f \<Rightarrow> 'f \<Rightarrow> int \<Rightarrow>
   (string \<rightharpoonup> 'f::{zero,one,plus,minus,times,inverse}) \<Rightarrow> (string \<rightharpoonup> 'f)" where
  "pr_iteration float64 sch g damping n i scores =
     (let newScores = fold (\<lambda>v m. m(v \<mapsto> (1 - damping) / n)) (base_order sch i) Map.empty
      in fold (pushVertex float64 sch g damping i scores) (push_order sch i) newScores)"

text \<open>\<^verbatim>\<open>for i := 0; i < iterations; i++ { ...; scores = newScores }\<close>\<close>

function pr_loop ::
  "(int \<Rightarrow> 'f) \<Rightarrow> pr_schedule \<Rightarrow> 'f DependencyGraph \<Rightarrow> 'f \<Rightarrow> 'f \<Rightarrow> int \<Rightarrow> int \<Rightarrow>
   (string \<rightharpoonup> 'f::{zero,one,plus,minus,times,inverse}) \<Rightarrow> (string \<rightharpoonup> 'f)" where
  "pr_loop float64 sch g damping n iterations i scores =
     (if i < iterations
      then pr_loop float64 sch g damping n iterations (i + 1)
             (pr_iteration float64 sch g damping n i scores)
      else scores)"
  by pat_completeness auto
termination
  by (relation "measure (\<lambda>(float64, sch, g, damping, n, iterations, i, scores). nat (iterations - i))") auto

declare pr_loop.simps [simp del]

definition computePageRank ::
  "(int \<Rightarrow> 'f) \<Rightarrow> pr_schedule \<Rightarrow> 'f DependencyGraph \<Rightarrow> 'f \<Rightarrow> int \<Rightarrow>
   'f::{zero,one,plus,minus,times,inverse} DependencyGraph" where
  "computePageRank float64 sch g damping iterations =
     (let n = float64 (int (card (Vertices g))) in
      if n = 0 then g
      else let scores = fold (\<lambda>v m. m(v \<mapsto> 1 / n)) (seed_order sch) Map.empty
           in g\<lparr>PageRankScores := pr_loop float64 sch g damping n iterations 0 scores\<rparr>)"

text \<open>
  \<^verbatim>\<open>Analyze\<close> calls \<^verbatim>\<open>computePageRank(0.85, 100)\<close>. Here the scores are real numbers and
  the conversion is exact: rounding of \<^verbatim>\<open>float64\<close> is not modelled.
\<close>

definition Analyze :: "pr_schedule \<Rightarrow> real DependencyGraph \<Rightarrow> real DependencyGraph" where
  "Analyze sch g = computePageRank real_of_int sch g 0.85 100"

text \<open>
  What one pass does to a single key \<open>u\<close>, read off the loops: visiting vertex \<open>v\<close> adds
  \<open>v\<close>'s share to the value at \<open>u\<close> when \<open>v\<close> has neighbours and \<open>u\<close> is one of them.
  The proofs relate the loops to this per-key view.
\<close>

definition pull ::
  "(int \<Rightarrow> 'f) \<Rightarrow> pr_schedule \<Rightarrow> 'f DependencyGraph \<Rightarrow> 'f \<Rightarrow> int \<Rightarrow>
   (string \<rightharpoonup> 'f::{zero,plus,times,inverse}) \<Rightarrow> string \<Rightarrow> string \<Rightarrow> 'f option \<Rightarrow> 'f option" where
  "pull float64 sch g damping i scores u v a =
     (if card (inner (adjacency g) v) \<noteq> 0 \<and> u \<in> set (nbr_order sch i v)
      then Some ((case a of None \<Rightarrow> 0 | Some x \<Rightarrow> x) +
                 damping * (lookup0 scores v / float64 (int (card (inner (adjacency g) v)))))
      else a)"

subsection \<open>The scorer as the specification words it\<close>




subsection \<open>Hotspots\<close>


text \<open>
  \<^verbatim>\<open>sort.Slice\<close> belongs to Go's library and is a parameter of the model. Its contract:
  the result is a rearrangement of the input in which no element is less (by the comparison \<open>lt\<close>) than one
  that precedes it. It is not stable.
\<close>

definition sorts_by :: "('e \<Rightarrow> 'e \<Rightarrow> bool) \<Rightarrow> ('e list \<Rightarrow> 'e list) \<Rightarrow> bool" where
  "sorts_by lt srt \<longleftrightarrow>
     (\<forall>xs. mset (srt xs) = mset xs \<and> sorted_wrt (\<lambda>a b. \<not> lt b a) (srt xs))"


text \<open>
  Insertion sort by a comparison \<open>lt\<close>: a sorting function that meets the contract, for
  running the model on concrete inputs.
\<close>

fun insertBy :: "('e \<Rightarrow> 'e \<Rightarrow> bool) \<Rightarrow> 'e \<Rightarrow> 'e list \<Rightarrow> 'e list" where
  "insertBy lt x [] = [x]"
| "insertBy lt x (y # ys) = (if lt y x then y # insertBy lt x ys else x # y # ys)"

definition isortBy :: "('e \<Rightarrow> 'e \<Rightarrow> bool) \<Rightarrow> 'e list \<Rightarrow> 'e list" where
  "isortBy lt xs = foldr (insertBy lt) xs []"

section \<open>The declaration graph of a microservice (package report)\<close>

subsection \<open>Parsed input (package parser)\<close>

datatype DeclKind =
  DeclStruct | DeclInterface | DeclFunc | DeclType | DeclConst | DeclVar
  | DeclMessage | DeclService | DeclRPC | DeclEnum

text \<open>\<^verbatim>\<open>string(d.kind)\<close>: the constants' string values.\<close>

fun kind_string :: "DeclKind \<Rightarrow> string" where
  "kind_string DeclStruct = ''struct''"
| "kind_string DeclInterface = ''interface''"
| "kind_string DeclFunc = ''func''"
| "kind_string DeclType = ''type''"
| "kind_string DeclConst = ''const''"
| "kind_string DeclVar = ''var''"
| "kind_string DeclMessage = ''message''"
| "kind_string DeclService = ''service''"
| "kind_string DeclRPC = ''rpc''"
| "kind_string DeclEnum = ''enum''"

record Declaration =
  Name :: string
  Kind :: DeclKind

record FunctionInfo =
  fi_Name :: string
  fi_LineCount :: int
  fi_FilePath :: string

text \<open>Of \<^verbatim>\<open>ParsedFile\<close>, the fields that \<^verbatim>\<open>buildDeclGraph\<close> reads.\<close>

record ParsedFile =
  FilePath :: string
  Declarations :: "Declaration list"
  BigFunctions :: "FunctionInfo list"

text \<open>\<^verbatim>\<open>FileName\<close>: what follows the last \<^verbatim>\<open>/\<close> of the path, or the whole path.\<close>

definition FileName :: "ParsedFile \<Rightarrow> string" where
  "FileName p = rev (takeWhile (\<lambda>c. c \<noteq> CHR ''/'') (rev (FilePath p)))"

record MicroserviceSummary =
  ms_Name :: string
  Files :: "ParsedFile list"

subsection \<open>Output and working data\<close>

record gNode =
  ID :: string
  Label :: string
  Sublabel :: string
  node_Kind :: string
  node_Score :: real
  Group :: string

record gLink =
  Source :: string
  Target :: string

record gData =
  Nodes :: "gNode list"
  Links :: "gLink list"

record di =
  name :: string
  fp :: string
  fn :: string
  kind :: DeclKind

record candidate =
  target :: string
  tgtScore :: real

text \<open>The two maps that the edge strategies fill: candidates per source id, and edge keys.\<close>

record edge_state =
  outgoing :: "string \<rightharpoonup> candidate list"
  seen :: "string set"

text \<open>
  Scores are \<^verbatim>\<open>float64\<close> values that \<^verbatim>\<open>buildDeclGraph\<close> only compares (with each other and
  with the literal 0.001) and copies; they are real numbers here.

  What \<^verbatim>\<open>buildDeclGraph\<close> takes from outside: \<^verbatim>\<open>os.ReadFile\<close> (\<open>None\<close> for an error), the
  two uses of \<^verbatim>\<open>sort.Slice\<close>, and the visiting orders of its three \<^verbatim>\<open>range\<close> loops over
  maps.
\<close>

record bd_env =
  readFile :: "string \<Rightarrow> string option"
  sortDecls :: "(di \<Rightarrow> di \<Rightarrow> bool) \<Rightarrow> di list \<Rightarrow> di list"
  sortCands :: "(candidate \<Rightarrow> candidate \<Rightarrow> bool) \<Rightarrow> candidate list \<Rightarrow> candidate list"
  contentsOrder :: "string list"
  fileNodesOrder :: "string list"
  outgoingOrder :: "string list"

text \<open>Reading a map of slices: a missing key yields the nil slice.\<close>

definition lookupList :: "(string \<rightharpoonup> 'a list) \<Rightarrow> string \<Rightarrow> 'a list" where
  "lookupList m k = (case m k of None \<Rightarrow> [] | Some xs \<Rightarrow> xs)"

subsection \<open>Word-boundary matching\<close>

definition isIdentChar :: "char \<Rightarrow> bool" where
  "isIdentChar b \<longleftrightarrow>
     (let n = (of_char b :: nat) in
      (of_char (CHR ''a'') \<le> n \<and> n \<le> of_char (CHR ''z'')) \<or>
      (of_char (CHR ''A'') \<le> n \<and> n \<le> of_char (CHR ''Z'')) \<or>
      (of_char (CHR ''0'') \<le> n \<and> n \<le> of_char (CHR ''9'')) \<or> b = CHR ''_'')"

text \<open>
  The loop of \<^verbatim>\<open>matchGoTypeRef\<close> from index \<open>i\<close> on: \<^verbatim>\<open>for ; i <= sl-tl; i++\<close> with its three
  \<^verbatim>\<open>continue\<close>s.
\<close>

function matchFrom :: "string \<Rightarrow> string \<Rightarrow> nat \<Rightarrow> bool" where
  "matchFrom source typeName i =
     (let tl = length typeName; sl = length source in
      if int i \<le> int sl - int tl then
        (if take tl (drop i source) \<noteq> typeName then matchFrom source typeName (i + 1)
         else if i > 0 \<and> isIdentChar (source ! (i - 1)) then matchFrom source typeName (i + 1)
         else if i + tl < sl \<and> isIdentChar (source ! (i + tl)) then matchFrom source typeName (i + 1)
         else True)
      else False)"
  by pat_completeness auto
termination
  by (relation "measure (\<lambda>(source, typeName, i). Suc (length source) - i)") auto

declare matchFrom.simps [simp del]

definition matchGoTypeRef :: "string \<Rightarrow> string \<Rightarrow> bool" where
  "matchGoTypeRef source typeName = matchFrom source typeName 0"

text \<open>What the loop tests at one index \<open>k\<close>: the name lies there, between boundaries.\<close>

definition matchAt :: "string \<Rightarrow> string \<Rightarrow> nat \<Rightarrow> bool" where
  "matchAt source typeName k \<longleftrightarrow>
     k + length typeName \<le> length source \<and> take (length typeName) (drop k source) = typeName \<and>
     \<not> (k > 0 \<and> isIdentChar (source ! (k - 1))) \<and>
     \<not> (k + length typeName < length source \<and> isIdentChar (source ! (k + length typeName)))"

text \<open>
  The word-boundary rule as the specification words it: the identifier occurs in the
  content with a non-identifier character, or the string's boundary, on both sides.
\<close>

definition word_boundary_occurrence :: "string \<Rightarrow> string \<Rightarrow> bool" where
  "word_boundary_occurrence content ident \<longleftrightarrow>
     (\<exists>pre post. content = pre @ ident @ post \<and>
        (pre = [] \<or> \<not> isIdentChar (last pre)) \<and> (post = [] \<or> \<not> isIdentChar (hd post)))"

subsection \<open>Candidate nodes\<close>

definition typeKinds :: "DeclKind \<Rightarrow> bool" where
  "typeKinds k \<longleftrightarrow> k \<in> {DeclStruct, DeclInterface, DeclMessage, DeclService, DeclEnum}"

text \<open>The node id \<^verbatim>\<open>d.fp + "::" + d.name\<close>.\<close>

definition nodeID :: "di \<Rightarrow> string" where
  "nodeID d = fp d @ ''::'' @ name d"

text \<open>The body of the loop over \<^verbatim>\<open>f.Declarations\<close>; the state is \<^verbatim>\<open>ad\<close> and \<^verbatim>\<open>funcSet\<close>.\<close>

definition collectDeclaration ::
  "ParsedFile \<Rightarrow> Declaration \<Rightarrow> di list \<times> string set \<Rightarrow> di list \<times> string set" where
  "collectDeclaration f d acc =
     (let (ad, funcSet) = acc;
          ad = (if typeKinds (Kind d) \<and> 3 \<le> length (Name d)
                then ad @ [\<lparr>name = Name d, fp = FilePath f, fn = FileName f, kind = Kind d\<rparr>]
                else ad)
      in if Kind d = DeclFunc \<and> 3 \<le> length (Name d)
         then (let key = FilePath f @ ''::'' @ Name d in
               if key \<in> funcSet then (ad, funcSet)
               else (ad @ [\<lparr>name = Name d, fp = FilePath f, fn = FileName f, kind = DeclFunc\<rparr>],
                     insert key funcSet))
         else (ad, funcSet))"

text \<open>The body of the loop over \<^verbatim>\<open>f.BigFunctions\<close>.\<close>

definition collectBigFunction ::
  "ParsedFile \<Rightarrow> FunctionInfo \<Rightarrow> di list \<times> string set \<Rightarrow> di list \<times> string set" where
  "collectBigFunction f bf acc =
     (let (ad, funcSet) = acc; key = fi_FilePath bf @ ''::'' @ fi_Name bf in
      if key \<in> funcSet then (ad, funcSet)
      else (ad @ [\<lparr>name = fi_Name bf, fp = fi_FilePath bf, fn = FileName f, kind = DeclFunc\<rparr>],
            insert key funcSet))"

definition collectFile :: "ParsedFile \<Rightarrow> di list \<times> string set \<Rightarrow> di list \<times> string set" where
  "collectFile f acc =
     fold (collectBigFunction f) (BigFunctions f) (fold (collectDeclaration f) (Declarations f) acc)"

definition collectDecls :: "MicroserviceSummary \<Rightarrow> di list" where
  "collectDecls ms = fst (fold collectFile (Files ms) ([], {}))"

text \<open>The node cap: beyond 80 candidates, sort by the file's score and keep the first 80.\<close>

definition capDecls :: "bd_env \<Rightarrow> (string \<rightharpoonup> real) \<Rightarrow> di list \<Rightarrow> di list" where
  "capDecls env scores ad =
     (if length ad > 80
      then take 80 (sortDecls env (\<lambda>a b. lookup0 scores (fp a) > lookup0 scores (fp b)) ad)
      else ad)"

definition flooredScore :: "(string \<rightharpoonup> real) \<Rightarrow> di \<Rightarrow> real" where
  "flooredScore scores d = (let s = lookup0 scores (fp d) in if s < 0.001 then 0.001 else s)"

definition mkNode :: "string \<Rightarrow> (string \<rightharpoonup> real) \<Rightarrow> di \<Rightarrow> gNode" where
  "mkNode msName scores d =
     \<lparr>ID = nodeID d, Label = name d, Sublabel = fn d, node_Kind = kind_string (kind d),
      node_Score = flooredScore scores d, Group = msName\<rparr>"

definition mkNodeScores :: "(string \<rightharpoonup> real) \<Rightarrow> di list \<Rightarrow> (string \<rightharpoonup> real)" where
  "mkNodeScores scores ad = fold (\<lambda>d m. m(nodeID d \<mapsto> flooredScore scores d)) ad Map.empty"

definition mkNodeSet :: "di list \<Rightarrow> string set" where
  "mkNodeSet ad = fold (\<lambda>d S. insert (nodeID d) S) ad {}"

text \<open>Pre-reading the files: an unreadable file leaves no entry.\<close>

definition mkFileContents :: "bd_env \<Rightarrow> ParsedFile list \<Rightarrow> (string \<rightharpoonup> string)" where
  "mkFileContents env files =
     fold (\<lambda>f m. case readFile env (FilePath f) of None \<Rightarrow> m | Some content \<Rightarrow> m(FilePath f \<mapsto> content))
          files Map.empty"

definition mkFileNodes :: "di list \<Rightarrow> (string \<rightharpoonup> di list)" where
  "mkFileNodes ad = fold (\<lambda>d m. m(fp d \<mapsto> lookupList m (fp d) @ [d])) ad Map.empty"

subsection \<open>Edge strategies\<close>

text \<open>
  The three statements that every strategy ends with: append the candidate to
  \<^verbatim>\<open>outgoing[srcID]\<close> with the target's node score, and mark the edge key as seen.
\<close>

definition pushCandidate ::
  "(string \<rightharpoonup> real) \<Rightarrow> string \<Rightarrow> string \<Rightarrow> string \<Rightarrow> edge_state \<Rightarrow> edge_state" where
  "pushCandidate nodeScores srcID tgtID ek st =
     st\<lparr>outgoing := (outgoing st)(srcID \<mapsto>
                        lookupList (outgoing st) srcID @ [\<lparr>target = tgtID, tgtScore = lookup0 nodeScores tgtID\<rparr>]),
        seen := insert ek (seen st)\<rparr>"

text \<open>
  The tail shared by strategies 1, 3 and 4: build the key, skip a seen one, and push the
  target when its name matches in the content \<open>cs\<close>.
\<close>

definition linkIfMatch ::
  "(string \<rightharpoonup> real) \<Rightarrow> string \<Rightarrow> string \<Rightarrow> di \<Rightarrow> edge_state \<Rightarrow> edge_state" where
  "linkIfMatch nodeScores cs srcID tgt st =
     (let ek = srcID @ ''->'' @ fp tgt @ ''::'' @ name tgt in
      if ek \<in> seen st then st
      else if matchGoTypeRef cs (name tgt)
           then pushCandidate nodeScores srcID (fp tgt @ ''::'' @ name tgt) ek st
           else st)"

text \<open>Strategy 1, cross-file references: the innermost loop's body, and one file's turn.\<close>

definition crossRefTarget ::
  "(string \<rightharpoonup> real) \<Rightarrow> string \<Rightarrow> string \<Rightarrow> di \<Rightarrow> di \<Rightarrow> edge_state \<Rightarrow> edge_state" where
  "crossRefTarget nodeScores filePath cs d tgt st =
     (if fp tgt = filePath then st
      else if name tgt = name d \<or> length (name tgt) \<le> 4 then st
      else linkIfMatch nodeScores cs (fp d @ ''::'' @ name d) tgt st)"

definition crossRefFile ::
  "(string \<rightharpoonup> real) \<Rightarrow> di list \<Rightarrow> (string \<rightharpoonup> di list) \<Rightarrow> (string \<rightharpoonup> string) \<Rightarrow> string \<Rightarrow>
   edge_state \<Rightarrow> edge_state" where
  "crossRefFile nodeScores ad fileNodes fileContents filePath st =
     (case fileContents filePath of
        None \<Rightarrow> st
      | Some cs \<Rightarrow>
          fold (\<lambda>d. fold (crossRefTarget nodeScores filePath cs d) ad) (lookupList fileNodes filePath) st)"

text \<open>
  Strategy 2, co-location: the innermost loop's body on the indexed pair, and one
  file's node list.
\<close>

definition coLocatePair ::
  "(string \<rightharpoonup> real) \<Rightarrow> nat \<times> di \<Rightarrow> nat \<times> di \<Rightarrow> edge_state \<Rightarrow> edge_state" where
  "coLocatePair nodeScores isrc jtgt st =
     (let (i, src) = isrc; (j, tgt) = jtgt in
      if i = j \<or> name tgt = name src then st
      else (let srcID = fp src @ ''::'' @ name src;
                tgtID = fp tgt @ ''::'' @ name tgt;
                ek = srcID @ ''->'' @ tgtID
            in if ek \<notin> seen st then pushCandidate nodeScores srcID tgtID ek st else st))"

definition coLocateFile :: "(string \<rightharpoonup> real) \<Rightarrow> di list \<Rightarrow> edge_state \<Rightarrow> edge_state" where
  "coLocateFile nodeScores nodesInFile st =
     (if length nodesInFile < 2 \<or> length nodesInFile > 20 then st
      else fold (\<lambda>isrc. fold (coLocatePair nodeScores isrc) (List.enumerate 0 nodesInFile))
                (List.enumerate 0 nodesInFile) st)"

text \<open>Strategy 3, proto service to message: one source's turn.\<close>

definition serviceTarget ::
  "(string \<rightharpoonup> real) \<Rightarrow> string \<Rightarrow> string \<Rightarrow> di \<Rightarrow> edge_state \<Rightarrow> edge_state" where
  "serviceTarget nodeScores cs srcID tgt st =
     (if kind tgt \<noteq> DeclMessage \<and> kind tgt \<noteq> DeclRPC then st
      else if length (name tgt) \<le> 4 then st
      else linkIfMatch nodeScores cs srcID tgt st)"

definition serviceSource ::
  "(string \<rightharpoonup> real) \<Rightarrow> di list \<Rightarrow> (string \<rightharpoonup> string) \<Rightarrow> di \<Rightarrow> edge_state \<Rightarrow> edge_state" where
  "serviceSource nodeScores ad fileContents src st =
     (if kind src \<noteq> DeclService then st
      else (let cs = (case fileContents (fp src) of None \<Rightarrow> [] | Some c \<Rightarrow> c) in
            if cs = [] then st
            else fold (serviceTarget nodeScores cs (fp src @ ''::'' @ name src)) ad st))"

text \<open>Strategy 4, function calls across files: one source's turn.\<close>

definition callTarget ::
  "(string \<rightharpoonup> real) \<Rightarrow> string \<Rightarrow> di \<Rightarrow> di \<Rightarrow> edge_state \<Rightarrow> edge_state" where
  "callTarget nodeScores cs src tgt st =
     (if kind tgt \<noteq> DeclFunc \<or> fp tgt = fp src \<or> name tgt = name src then st
      else if length (name tgt) \<le> 4 then st
      else linkIfMatch nodeScores cs (fp src @ ''::'' @ name src) tgt st)"

definition callSource ::
  "(string \<rightharpoonup> real) \<Rightarrow> di list \<Rightarrow> (string \<rightharpoonup> string) \<Rightarrow> di \<Rightarrow> edge_state \<Rightarrow> edge_state" where
  "callSource nodeScores ad fileContents src st =
     (if kind src \<noteq> DeclFunc then st
      else (let cs = (case fileContents (fp src) of None \<Rightarrow> [] | Some c \<Rightarrow> c) in
            if cs = [] then st
            else fold (callTarget nodeScores cs src) ad st))"

text \<open>The four strategies in the order of the source, from empty maps.\<close>

definition strategy1 :: "bd_env \<Rightarrow> ParsedFile list \<Rightarrow> (string \<rightharpoonup> real) \<Rightarrow> di list \<Rightarrow> edge_state \<Rightarrow> edge_state" where
  "strategy1 env files nodeScores ad st =
     fold (crossRefFile nodeScores ad (mkFileNodes ad) (mkFileContents env files)) (contentsOrder env) st"

definition strategy2 :: "bd_env \<Rightarrow> (string \<rightharpoonup> real) \<Rightarrow> di list \<Rightarrow> edge_state \<Rightarrow> edge_state" where
  "strategy2 env nodeScores ad st =
     fold (\<lambda>k. coLocateFile nodeScores (lookupList (mkFileNodes ad) k)) (fileNodesOrder env) st"

definition strategy3 :: "bd_env \<Rightarrow> ParsedFile list \<Rightarrow> (string \<rightharpoonup> real) \<Rightarrow> di list \<Rightarrow> edge_state \<Rightarrow> edge_state" where
  "strategy3 env files nodeScores ad st =
     fold (serviceSource nodeScores ad (mkFileContents env files)) ad st"

definition strategy4 :: "bd_env \<Rightarrow> ParsedFile list \<Rightarrow> (string \<rightharpoonup> real) \<Rightarrow> di list \<Rightarrow> edge_state \<Rightarrow> edge_state" where
  "strategy4 env files nodeScores ad st =
     fold (callSource nodeScores ad (mkFileContents env files)) ad st"

definition declEdges :: "bd_env \<Rightarrow> ParsedFile list \<Rightarrow> (string \<rightharpoonup> real) \<Rightarrow> di list \<Rightarrow> edge_state" where
  "declEdges env files nodeScores ad =
     strategy4 env files nodeScores ad
       (strategy3 env files nodeScores ad
          (strategy2 env nodeScores ad
             (strategy1 env files nodeScores ad \<lparr>outgoing = Map.empty, seen = {}\<rparr>)))"

subsection \<open>Caps and result\<close>

text \<open>The per-source cap on a candidate list: sort by target score, keep at most 5.\<close>

definition topCandidates :: "bd_env \<Rightarrow> candidate list \<Rightarrow> candidate list" where
  "topCandidates env cands =
     (let cands = sortCands env (\<lambda>a b. tgtScore a > tgtScore b) cands;
          limit = (let maxOutPerNode = 5 in if maxOutPerNode > length cands then length cands else maxOutPerNode)
      in take limit cands)"

definition capSource :: "bd_env \<Rightarrow> string set \<Rightarrow> (string \<rightharpoonup> candidate list) \<Rightarrow> string \<Rightarrow> gLink list \<Rightarrow> gLink list" where
  "capSource env nodeSet out srcID links =
     (if srcID \<notin> nodeSet then links
      else fold (\<lambda>c links. if target c \<in> nodeSet then links @ [\<lparr>Source = srcID, Target = target c\<rparr>] else links)
                (topCandidates env (lookupList out srcID)) links)"

definition capEdges :: "nat \<Rightarrow> gLink list \<Rightarrow> gLink list" where
  "capEdges nodeCount links =
     (let maxEdges = nodeCount * 3;
          maxEdges = (if maxEdges < 10 then 10 else maxEdges)
      in if length links > maxEdges then take maxEdges links else links)"

definition buildDeclGraph :: "bd_env \<Rightarrow> MicroserviceSummary \<Rightarrow> (string \<rightharpoonup> real) \<Rightarrow> gData" where
  "buildDeclGraph env ms scores =
     (let ad = capDecls env scores (collectDecls ms);
          nodes = map (mkNode (ms_Name ms) scores) ad;
          nodeScores = mkNodeScores scores ad;
          nodeSet = mkNodeSet ad;
          st = declEdges env (Files ms) nodeScores ad;
          links = fold (capSource env nodeSet (outgoing st)) (outgoingOrder env) [];
          links = capEdges (length nodes) links
      in \<lparr>Nodes = nodes, Links = links\<rparr>)"

subsection \<open>Notions used in the statements about the edge strategies\<close>

text \<open>The candidate list of source \<open>s\<close> holds an entry with target \<open>t\<close>.\<close>

definition has_candidate :: "edge_state \<Rightarrow> string \<Rightarrow> string \<Rightarrow> bool" where
  "has_candidate st s t \<longleftrightarrow> (\<exists>c \<in> set (lookupList (outgoing st) s). target c = t)"

text \<open>
  How a state \<open>st\<close> relates to an earlier state \<open>st0\<close>: keys and candidates are only added,
  and every key added since belongs to a candidate that is present.
\<close>

definition grows :: "edge_state \<Rightarrow> edge_state \<Rightarrow> bool" where
  "grows st0 st \<longleftrightarrow>
     seen st0 \<subseteq> seen st \<and>
     (\<forall>s t. has_candidate st0 s t \<longrightarrow> has_candidate st s t) \<and>
     (\<forall>k \<in> seen st - seen st0.
        \<exists>s t. CHR ''>'' \<notin> set s \<and> k = s @ ''->'' @ t \<and> has_candidate st s t)"

section \<open>Concrete inputs\<close>

text \<open>
  A run of graph operations with a repeated edge, a self-loop, an edge to an unknown
  vertex and a repeated vertex, and the graph it builds.
\<close>

definition ops0 :: "graph_op list" where
  "ops0 = [OpAddVertex ''a'', OpAddVertex ''b'', OpAddEdge ''a'' ''b'', OpAddEdge ''a'' ''b'',
           OpAddEdge ''a'' ''a'', OpAddEdge ''a'' ''c'', OpAddVertex ''a'']"

definition g0 :: "'f DependencyGraph" where
  "g0 = \<lparr>Vertices = {''a'', ''b''}, Edges = [(''a'', ''b'')],
         adjacency = [''a'' \<mapsto> {''b''}, ''b'' \<mapsto> {}],
         reverseAdj = [''a'' \<mapsto> {}, ''b'' \<mapsto> {''a''}],
         PageRankScores = Map.empty\<rparr>"

text \<open>The graph of the 3-cycle scenario, built through the operations.\<close>

definition cycle_ops :: "string \<Rightarrow> string \<Rightarrow> string \<Rightarrow> graph_op list" where
  "cycle_ops a b c = [OpAddVertex a, OpAddVertex b, OpAddVertex c,
                      OpAddEdge a b, OpAddEdge b c, OpAddEdge c a]"


text \<open>Four vertices, one edge; \<open>''c''\<close> and \<open>''d''\<close> are isolated.\<close>

definition g4 :: "'f DependencyGraph" where
  "g4 = \<lparr>Vertices = {''a'', ''b'', ''c'', ''d''}, Edges = [(''a'', ''b'')],
         adjacency = [''a'' \<mapsto> {''b''}, ''b'' \<mapsto> {}, ''c'' \<mapsto> {}, ''d'' \<mapsto> {}],
         reverseAdj = [''a'' \<mapsto> {}, ''b'' \<mapsto> {''a''}, ''c'' \<mapsto> {}, ''d'' \<mapsto> {}],
         PageRankScores = Map.empty\<rparr>"


text \<open>The 3-cycle on \<open>''A''\<close>, \<open>''B''\<close>, \<open>''C''\<close>.\<close>

definition g3 :: "'f DependencyGraph" where
  "g3 = \<lparr>Vertices = {''A'', ''B'', ''C''}, Edges = [(''A'', ''B''), (''B'', ''C''), (''C'', ''A'')],
         adjacency = [''A'' \<mapsto> {''B''}, ''B'' \<mapsto> {''C''}, ''C'' \<mapsto> {''A''}],
         reverseAdj = [''A'' \<mapsto> {''C''}, ''B'' \<mapsto> {''A''}, ''C'' \<mapsto> {''B''}],
         PageRankScores = Map.empty\<rparr>"

definition sch3 :: pr_schedule where
  "sch3 = \<lparr>seed_order = [''A'', ''B'', ''C''], base_order = (\<lambda>i. [''C'', ''B'', ''A'']),
           push_order = (\<lambda>i. [''B'', ''C'', ''A'']),
           nbr_order = (\<lambda>i v. if v = ''A'' then [''B''] else if v = ''B'' then [''C'']
                                else if v = ''C'' then [''A''] else [])\<rparr>"


text \<open>
  A proto component: the service's file declares the rpc \<open>Lookup\<close> and mentions the
  messages \<open>Ping\<close> and \<open>Reply\<close>, each declared in a file of its own.
\<close>

definition svc_content :: string where
  "svc_content = ''service Echo { rpc Lookup (Ping) returns (Reply); }''"

definition ms_proto :: MicroserviceSummary where
  "ms_proto = \<lparr>ms_Name = ''api'',
     Files = [\<lparr>FilePath = ''svc.proto'',
               Declarations = [\<lparr>Name = ''Echo'', Kind = DeclService\<rparr>, \<lparr>Name = ''Lookup'', Kind = DeclRPC\<rparr>],
               BigFunctions = []\<rparr>,
              \<lparr>FilePath = ''ping.proto'',
               Declarations = [\<lparr>Name = ''Ping'', Kind = DeclMessage\<rparr>],
               BigFunctions = []\<rparr>,
              \<lparr>FilePath = ''reply.proto'',
               Declarations = [\<lparr>Name = ''Reply'', Kind = DeclMessage\<rparr>],
               BigFunctions = []\<rparr>]\<rparr>"

definition env_proto :: bd_env where
  "env_proto = \<lparr>readFile = [''svc.proto'' \<mapsto> svc_content, ''ping.proto'' \<mapsto> ''message Ping {}'',
                             ''reply.proto'' \<mapsto> ''message Reply {}''],
     sortDecls = isortBy, sortCands = isortBy,
     contentsOrder = [''ping.proto'', ''svc.proto'', ''reply.proto''],
     fileNodesOrder = [''svc.proto'', ''reply.proto'', ''ping.proto''],
     outgoingOrder = [''svc.proto::Echo'']\<rparr>"

definition di_Echo :: di where
  "di_Echo = \<lparr>name = ''Echo'', fp = ''svc.proto'', fn = ''svc.proto'', kind = DeclService\<rparr>"

definition di_Ping :: di where
  "di_Ping = \<lparr>name = ''Ping'', fp = ''ping.proto'', fn = ''ping.proto'', kind = DeclMessage\<rparr>"

definition di_Reply :: di where
  "di_Reply = \<lparr>name = ''Reply'', fp = ''reply.proto'', fn = ''reply.proto'', kind = DeclMessage\<rparr>"



text \<open>A file with seven structs, where both edge caps cut.\<close>

definition ms_seven :: MicroserviceSummary where
  "ms_seven = \<lparr>ms_Name = ''pkg'',
     Files = [\<lparr>FilePath = ''m.go'',
               Declarations = map (\<lambda>n. \<lparr>Name = n, Kind = DeclStruct\<rparr>)
                 [''Ant'', ''Bee'', ''Cat'', ''Dog'', ''Eel'', ''Fox'', ''Gnu''],
               BigFunctions = []\<rparr>]\<rparr>"

definition env_seven :: bd_env where
  "env_seven = \<lparr>readFile = Map.empty,
     sortDecls = isortBy, sortCands = isortBy,
     contentsOrder = [],
     fileNodesOrder = [''m.go''],
     outgoingOrder = map (\<lambda>n. ''m.go::'' @ n)
                 [''Gnu'', ''Ant'', ''Bee'', ''Cat'', ''Dog'', ''Eel'', ''Fox'']\<rparr>"







definition ms_collide :: MicroserviceSummary where
  "ms_collide = \<lparr>ms_Name = ''c'',
     Files = [\<lparr>FilePath = ''a'',
               Declarations = [\<lparr>Name = ''Svc->a::Msgxx'', Kind = DeclStruct\<rparr>, \<lparr>Name = ''Other'', Kind = DeclStruct\<rparr>,
                               \<lparr>Name = ''Svc'', Kind = DeclService\<rparr>,
                               \<lparr>Name = ''Msgxx->a::Other'', Kind = DeclMessage\<rparr>],
               BigFunctions = []\<rparr>]\<rparr>"

definition env_collide :: bd_env where
  "env_collide = \<lparr>readFile = [''a'' \<mapsto> ''Svc Msgxx->a::Other''],
     sortDecls = isortBy, sortCands = isortBy,
     contentsOrder = [''a''], fileNodesOrder = [''a''], outgoingOrder = []\<rparr>"

definition di_Svc :: di where
  "di_Svc = \<lparr>name = ''Svc'', fp = ''a'', fn = ''a'', kind = DeclService\<rparr>"

definition di_Msg :: di where
  "di_Msg = \<lparr>name = ''Msgxx->a::Other'', fp = ''a'', fn = ''a'', kind = DeclMessage\<rparr>"

subsection \<open>The invariant is established and kept\<close>

lemma graph_inv_New: "graph_inv New"
  by (simp add: graph_inv_def New_def)

lemma graph_inv_AddVertex:
  assumes "graph_inv g"
  shows "graph_inv (AddVertex g v)"
proof (cases "v \<in> Vertices g")
  case True
  with assms show ?thesis
    by (simp add: graph_inv_def AddVertex_def insert_absorb)
next
  case False
  with assms have nov: "\<And>x. (v, x) \<notin> set (Edges g)" "\<And>x. (x, v) \<notin> set (Edges g)"
    by (auto simp: graph_inv_def)
  from assms False show ?thesis
    by (simp add: graph_inv_def AddVertex_def nov)
qed

lemma AddEdge_rejects:
  "src = tgt \<or> src \<notin> Vertices g \<or> tgt \<notin> Vertices g \<Longrightarrow> AddEdge g src tgt = Inr g"
  by (auto simp: AddEdge_def)

lemma AddEdge_present:
  "graph_inv g \<Longrightarrow> (src, tgt) \<in> set (Edges g) \<Longrightarrow> AddEdge g src tgt = Inr g"
  by (auto simp: AddEdge_def graph_inv_def inner_def)

lemma AddEdge_fresh:
  assumes "graph_inv g" "src \<noteq> tgt" "src \<in> Vertices g" "tgt \<in> Vertices g"
    "(src, tgt) \<notin> set (Edges g)"
  shows "AddEdge g src tgt =
           Inr (g\<lparr>Edges := Edges g @ [(src, tgt)],
                  adjacency := (adjacency g)(src \<mapsto> insert tgt {t. (src, t) \<in> set (Edges g)}),
                  reverseAdj := (reverseAdj g)(tgt \<mapsto> insert src {s. (s, tgt) \<in> set (Edges g)})\<rparr>)"
  using assms by (simp add: AddEdge_def graph_inv_def inner_def)

lemma graph_inv_AddEdge:
  assumes "graph_inv g"
  shows "\<exists>g'. AddEdge g src tgt = Inr g' \<and> graph_inv g'"
proof (cases "src = tgt \<or> src \<notin> Vertices g \<or> tgt \<notin> Vertices g")
  case True
  with assms show ?thesis by (simp add: AddEdge_rejects)
next
  case ok: False
  show ?thesis
  proof (cases "(src, tgt) \<in> set (Edges g)")
    case True
    with assms show ?thesis by (simp add: AddEdge_present)
  next
    case False
    with ok assms have eq: "AddEdge g src tgt =
           Inr (g\<lparr>Edges := Edges g @ [(src, tgt)],
                  adjacency := (adjacency g)(src \<mapsto> insert tgt {t. (src, t) \<in> set (Edges g)}),
                  reverseAdj := (reverseAdj g)(tgt \<mapsto> insert src {s. (s, tgt) \<in> set (Edges g)})\<rparr>)"
      by (simp add: AddEdge_fresh)
    from assms ok False show ?thesis
      unfolding eq by (auto simp: graph_inv_def)
  qed
qed

lemma run_ops_inv:
  "graph_inv g \<Longrightarrow> \<exists>g'. run_ops g ops = Inr g' \<and> graph_inv g'"
proof (induction ops arbitrary: g)
  case Nil
  then show ?case by simp
next
  case (Cons x xs)
  show ?case
  proof (cases x)
    case (OpAddVertex v)
    with Cons show ?thesis by (simp add: graph_inv_AddVertex)
  next
    case (OpAddEdge s t)
    from graph_inv_AddEdge [OF Cons.prems, of s t]
    obtain g1 where "AddEdge g s t = Inr g1" "graph_inv g1" by blast
    with Cons.IH [of g1] OpAddEdge show ?thesis by simp
  qed
qed


subsection \<open>Properties of graphs built by the operations\<close>

lemma run_ops_keeps_inv: "graph_inv g \<Longrightarrow> run_ops g ops = Inr g' \<Longrightarrow> graph_inv g'"
  using run_ops_inv [of g ops] by auto

lemma run_ops_New_inv: "run_ops New ops = Inr g \<Longrightarrow> graph_inv g"
  by (rule run_ops_keeps_inv [OF graph_inv_New])

lemma run_ops_New_total: "\<exists>g. run_ops New ops = Inr g"
  using run_ops_inv [OF graph_inv_New, of ops] by auto

lemma inner_adjacency: "graph_inv g \<Longrightarrow> inner (adjacency g) v = {t. (v, t) \<in> set (Edges g)}"
  by (auto simp: graph_inv_def inner_def)

lemma inner_reverseAdj: "graph_inv g \<Longrightarrow> inner (reverseAdj g) v = {s. (s, v) \<in> set (Edges g)}"
  by (auto simp: graph_inv_def inner_def)

lemma card_out_edges:
  assumes "distinct es"
  shows "card {t. (v, t) \<in> set es} = length (filter (\<lambda>e. fst e = v) es)"
proof -
  let ?fs = "filter (\<lambda>e. fst e = v) es"
  have "{t. (v, t) \<in> set es} = snd ` set ?fs"
    by force
  moreover have "inj_on snd (set ?fs)"
    by (auto simp: inj_on_def)
  ultimately have "card {t. (v, t) \<in> set es} = card (set ?fs)"
    by (simp only: card_image)
  also from assms have "\<dots> = length ?fs"
    by (intro distinct_card distinct_filter)
  finally show ?thesis .
qed

lemma card_in_edges:
  assumes "distinct es"
  shows "card {s. (s, v) \<in> set es} = length (filter (\<lambda>e. snd e = v) es)"
proof -
  let ?fs = "filter (\<lambda>e. snd e = v) es"
  have "{s. (s, v) \<in> set es} = fst ` set ?fs"
    by force
  moreover have "inj_on fst (set ?fs)"
    by (auto simp: inj_on_def)
  ultimately have "card {s. (s, v) \<in> set es} = card (set ?fs)"
    by (simp only: card_image)
  also from assms have "\<dots> = length ?fs"
    by (intro distinct_card distinct_filter)
  finally show ?thesis .
qed

lemma count_list_distinct: "x \<in> set xs \<Longrightarrow> distinct xs \<Longrightarrow> count_list xs x = 1"
  by (induction xs) auto

lemma run_ops0: "run_ops New ops0 = Inr g0"
  apply (simp add: ops0_def g0_def New_def AddVertex_def AddEdge_def inner_def)
  apply (auto simp: fun_eq_iff)
  done


lemma apply_op_vertices:
  "apply_op g x = Inr g' \<Longrightarrow>
   Vertices g' = Vertices g \<union> (case x of OpAddVertex v \<Rightarrow> {v} | OpAddEdge s t \<Rightarrow> {})"
  by (cases x) (auto simp: AddVertex_def AddEdge_def split: if_splits option.splits)

lemma run_ops_vertices:
  "run_ops g ops = Inr g' \<Longrightarrow> Vertices g' = Vertices g \<union> {v. OpAddVertex v \<in> set ops}"
proof (induction ops arbitrary: g)
  case Nil
  then show ?case by simp
next
  case (Cons x xs)
  show ?case
  proof (cases "apply_op g x")
    case (Inl e)
    with Cons.prems show ?thesis by simp
  next
    case (Inr g1)
    with Cons.prems have "run_ops g1 xs = Inr g'" by simp
    then have "Vertices g' = Vertices g1 \<union> {v. OpAddVertex v \<in> set xs}" by (rule Cons.IH)
    with apply_op_vertices [OF Inr] show ?thesis by (cases x) auto
  qed
qed

text \<open>
  Claim C3. After any sequence of \<^verbatim>\<open>AddVertex\<close> and \<^verbatim>\<open>AddEdge\<close> calls on a new graph
  (the run never panics), the vertices are those that were added, every edge of the
  edge list has a source different from its target and both are vertices; and an
  \<^verbatim>\<open>AddEdge\<close> call whose source equals its target, or one of whose endpoints is not a
  vertex, returns the graph unchanged.
\<close>

theorem edges_between_distinct_vertices:
  "\<exists>g :: 'f DependencyGraph. run_ops New ops = Inr g \<and>
       Vertices g = {v. OpAddVertex v \<in> set ops} \<and>
       (\<forall>e \<in> set (Edges g). fst e \<noteq> snd e \<and> fst e \<in> Vertices g \<and> snd e \<in> Vertices g) \<and>
       (\<forall>s t. s = t \<or> s \<notin> Vertices g \<or> t \<notin> Vertices g \<longrightarrow> AddEdge g s t = Inr g)"
proof -
  from run_ops_New_total obtain g :: "'f DependencyGraph" where g: "run_ops New ops = Inr g"
    by blast
  then have "graph_inv g" by (rule run_ops_New_inv)
  then have e: "\<forall>e \<in> set (Edges g). fst e \<noteq> snd e \<and> fst e \<in> Vertices g \<and> snd e \<in> Vertices g"
    by (auto simp: graph_inv_def)
  from run_ops_vertices [OF g] have v: "Vertices g = {v. OpAddVertex v \<in> set ops}"
    by (simp add: New_def)
  have r: "\<forall>s t. s = t \<or> s \<notin> Vertices g \<or> t \<notin> Vertices g \<longrightarrow> AddEdge g s t = Inr g"
    by (simp add: AddEdge_rejects)
  from g v e r show ?thesis by (intro exI [of _ g] conjI)
qed

theorem edges_between_distinct_vertices_witness:
  "run_ops New ops0 = Inr (g0 :: real DependencyGraph) \<and>
   Vertices (g0 :: real DependencyGraph) = {v. OpAddVertex v \<in> set ops0} \<and>
   fst (''a'', ''b'') \<noteq> snd (''a'', ''b'') \<and> ''a'' \<in> Vertices (g0 :: real DependencyGraph) \<and>
   AddEdge g0 ''b'' ''b'' = Inr (g0 :: real DependencyGraph) \<and>
   AddEdge g0 ''a'' ''c'' = Inr (g0 :: real DependencyGraph)"
proof -
  from edges_between_distinct_vertices [of ops0]
  obtain g :: "real DependencyGraph" where g: "run_ops New ops0 = Inr g"
    "Vertices g = {v. OpAddVertex v \<in> set ops0}"
    "\<forall>e \<in> set (Edges g). fst e \<noteq> snd e \<and> fst e \<in> Vertices g \<and> snd e \<in> Vertices g"
    "\<forall>s t. s = t \<or> s \<notin> Vertices g \<or> t \<notin> Vertices g \<longrightarrow> AddEdge g s t = Inr g"
    by blast
  from g(1) have eq: "g = g0" by (simp add: run_ops0)
  have v: "Vertices (g0 :: real DependencyGraph) = {''a'', ''b''}"
    "Edges (g0 :: real DependencyGraph) = [(''a'', ''b'')]"
    by (simp_all add: g0_def)
  from g(3) have "fst (''a'', ''b'') \<noteq> snd (''a'', ''b'') \<and> ''a'' \<in> Vertices (g0 :: real DependencyGraph)"
    unfolding eq v by simp
  moreover from g(4) have "AddEdge g0 ''b'' ''b'' = Inr (g0 :: real DependencyGraph)"
    unfolding eq by blast
  moreover from g(4) have "AddEdge g0 ''a'' ''c'' = Inr (g0 :: real DependencyGraph)"
    unfolding eq by (simp add: v)
  moreover from g(2) have "Vertices (g0 :: real DependencyGraph) = {v. OpAddVertex v \<in> set ops0}"
    unfolding eq .
  ultimately show ?thesis by (simp only: run_ops0 simp_thms)
qed

text \<open>
  Claim C4. On a graph built by any sequence of operations, calling \<^verbatim>\<open>AddEdge\<close> with
  two different registered endpoints and then calling it again with the same pair: the
  second call returns the graph of the first call unchanged, and the pair occurs exactly
  once in the edge list.
\<close>

theorem AddEdge_idempotent:
  assumes "run_ops New ops = Inr g" "s \<noteq> t" "s \<in> Vertices g" "t \<in> Vertices g"
  shows "\<exists>g1. AddEdge g s t = Inr g1 \<and> AddEdge g1 s t = Inr g1 \<and>
              count_list (Edges g1) (s, t) = 1"
proof -
  from assms(1) have inv: "graph_inv g" by (rule run_ops_New_inv)
  from graph_inv_AddEdge [OF inv, of s t]
  obtain g1 where g1: "AddEdge g s t = Inr g1" "graph_inv g1" by blast
  have mem: "(s, t) \<in> set (Edges g1)"
  proof (cases "(s, t) \<in> set (Edges g)")
    case True
    with inv g1(1) show ?thesis by (simp add: AddEdge_present)
  next
    case False
    with inv assms g1(1) show ?thesis by (auto simp: AddEdge_fresh)
  qed
  from g1(2) have "distinct (Edges g1)" by (simp add: graph_inv_def)
  with mem have "count_list (Edges g1) (s, t) = 1"
    by (rule count_list_distinct)
  moreover from g1(2) mem have "AddEdge g1 s t = Inr g1" by (simp add: AddEdge_present)
  ultimately show ?thesis using g1(1) by blast
qed

theorem AddEdge_idempotent_witness:
  "run_ops New ops0 = Inr (g0 :: real DependencyGraph) \<and> ''b'' \<noteq> ''a'' \<and>
   ''b'' \<in> Vertices (g0 :: real DependencyGraph) \<and> ''a'' \<in> Vertices (g0 :: real DependencyGraph) \<and>
   (\<exists>g1 :: real DependencyGraph. AddEdge g0 ''b'' ''a'' = Inr g1 \<and> AddEdge g1 ''b'' ''a'' = Inr g1 \<and>
      count_list (Edges g1) (''b'', ''a'') = 1)"
proof -
  have r: "run_ops New ops0 = Inr (g0 :: real DependencyGraph)" by (rule run_ops0)
  have v: "''b'' \<noteq> ''a''" "''b'' \<in> Vertices (g0 :: real DependencyGraph)"
    "''a'' \<in> Vertices (g0 :: real DependencyGraph)"
    by (simp_all add: g0_def)
  note AddEdge_idempotent [OF r v]
  with r v show ?thesis by (intro conjI)
qed

text \<open>
  Claim C10. After any sequence of \<^verbatim>\<open>AddVertex\<close> and \<^verbatim>\<open>AddEdge\<close> calls on a new graph,
  \<^verbatim>\<open>OutDegree(v)\<close> is the number of entries of the edge list whose source is \<open>v\<close> and
  \<^verbatim>\<open>InDegree(v)\<close> the number of entries whose target is \<open>v\<close>, for every string \<open>v\<close>.
\<close>

theorem degrees_match_edge_list:
  assumes "run_ops New ops = Inr g"
  shows "OutDegree g v = int (length (filter (\<lambda>e. fst e = v) (Edges g))) \<and>
         InDegree g v = int (length (filter (\<lambda>e. snd e = v) (Edges g)))"
proof -
  from assms have inv: "graph_inv g" by (rule run_ops_New_inv)
  then have d: "distinct (Edges g)" by (simp add: graph_inv_def)
  show ?thesis
    by (simp add: OutDegree_def InDegree_def inner_adjacency [OF inv] inner_reverseAdj [OF inv]
        card_out_edges [OF d] card_in_edges [OF d])
qed


theorem degrees_match_edge_list_witness:
  "run_ops New ops0 = Inr (g0 :: real DependencyGraph) \<and>
   OutDegree (g0 :: real DependencyGraph) ''a'' = 1 \<and> InDegree (g0 :: real DependencyGraph) ''a'' = 0"
proof -
  have r: "run_ops New ops0 = Inr (g0 :: real DependencyGraph)" by (rule run_ops0)
  have e: "Edges (g0 :: real DependencyGraph) = [(''a'', ''b'')]" by (simp add: g0_def)
  from degrees_match_edge_list [OF r, of "''a''"] r show ?thesis
    unfolding e by simp
qed

section \<open>Proofs about the relevance scorer\<close>

lemma fold_const_upd: "fold (\<lambda>v m. m(v \<mapsto> c)) ks m = (\<lambda>k. if k \<in> set ks then Some c else m k)"
  by (induction ks arbitrary: m) (auto simp: fun_eq_iff)

lemma pushShare_apply:
  "distinct ns \<Longrightarrow>
   pushShare inc ns m = (\<lambda>u. if u \<in> set ns then Some (lookup0 m u + inc) else m u)"
proof (induction ns arbitrary: m)
  case Nil
  then show ?case by (simp add: pushShare_def)
next
  case (Cons n ns)
  have "pushShare inc (n # ns) m = pushShare inc ns (m(n \<mapsto> lookup0 m n + inc))"
    by (simp add: pushShare_def)
  also from Cons have "\<dots> = (\<lambda>u. if u \<in> set ns then Some (lookup0 (m(n \<mapsto> lookup0 m n + inc)) u + inc)
                            else (m(n \<mapsto> lookup0 m n + inc)) u)"
    by simp
  also from Cons.prems have "\<dots> = (\<lambda>u. if u \<in> set (n # ns) then Some (lookup0 m u + inc) else m u)"
    by (auto simp: fun_eq_iff lookup0_def)
  finally show ?case .
qed

lemma pushVertex_pull:
  "distinct (nbr_order sch i v) \<Longrightarrow>
   pushVertex float64 sch g damping i scores v m u = pull float64 sch g damping i scores u v (m u)"
  by (simp add: pushVertex_def pull_def Let_def pushShare_apply lookup0_def)

lemma fold_pushVertex_pull:
  "(\<forall>v \<in> set order. distinct (nbr_order sch i v)) \<Longrightarrow>
   fold (pushVertex float64 sch g damping i scores) order m u =
   fold (pull float64 sch g damping i scores u) order (m u)"
proof (induction order arbitrary: m)
  case Nil
  then show ?case by simp
next
  case (Cons v vs)
  then show ?case by (simp add: pushVertex_pull)
qed

lemma pr_iteration_pull:
  assumes "valid_schedule g sch"
  shows "pr_iteration float64 sch g damping n i scores u =
         fold (pull float64 sch g damping i scores u) (push_order sch i)
              (if u \<in> Vertices g then Some ((1 - damping) / n) else None)"
proof -
  from assms have d: "\<forall>v \<in> set (push_order sch i). distinct (nbr_order sch i v)"
    and b: "set (base_order sch i) = Vertices g"
    by (auto simp: valid_schedule_def range_of_def)
  show ?thesis
    by (simp add: pr_iteration_def Let_def fold_pushVertex_pull [OF d] fold_const_upd b)
qed

lemma pr_loop_done: "\<not> i < iterations \<Longrightarrow> pr_loop float64 sch g damping n iterations i scores = scores"
  by (simp add: pr_loop.simps)

lemma pr_loop_step:
  "i < iterations \<Longrightarrow>
   pr_loop float64 sch g damping n iterations i scores =
   pr_loop float64 sch g damping n iterations (i + 1) (pr_iteration float64 sch g damping n i scores)"
  by (subst pr_loop.simps) simp

lemma pr_loop_invariant:
  assumes "\<And>j s. P s \<Longrightarrow> P (pr_iteration float64 sch g damping n j s)" "P scores"
  shows "P (pr_loop float64 sch g damping n iterations i scores)"
  using assms(2)
proof (induction "nat (iterations - i)" arbitrary: i scores)
  case 0
  then show ?case by (simp add: pr_loop_done)
next
  case (Suc k)
  then have lt: "i < iterations" and k: "k = nat (iterations - (i + 1))" by linarith+
  from Suc.prems have "P (pr_iteration float64 sch g damping n i scores)" by (rule assms(1))
  with Suc.hyps(1) [OF k] lt show ?case by (simp add: pr_loop_step)
qed




lemma fold_unchanged: "(\<forall>x \<in> set xs. f x a = a) \<Longrightarrow> fold f xs a = a"
  by (induction xs) auto

lemma fold_single:
  "distinct xs \<Longrightarrow> x0 \<in> set xs \<Longrightarrow> (\<forall>x \<in> set xs. x \<noteq> x0 \<longrightarrow> (\<forall>a. f x a = a)) \<Longrightarrow>
   fold f xs a = f x0 a"
proof (induction xs arbitrary: a)
  case Nil
  then show ?case by simp
next
  case (Cons x xs)
  show ?case
  proof (cases "x = x0")
    case True
    with Cons.prems have "\<forall>y \<in> set xs. f y (f x0 a) = f x0 a" by auto
    then have "fold f xs (f x0 a) = f x0 a" by (rule fold_unchanged)
    with True show ?thesis by simp
  next
    case False
    with Cons.prems have "f x a = a" "distinct xs" "x0 \<in> set xs"
      "\<forall>y \<in> set xs. y \<noteq> x0 \<longrightarrow> (\<forall>a. f y a = a)" by auto
    with Cons.IH [of a] show ?thesis by simp
  qed
qed

lemma valid_schedule_nbrs:
  "valid_schedule g sch \<Longrightarrow> set (nbr_order sch i v) = inner (adjacency g) v"
  by (simp add: valid_schedule_def range_of_def)

lemma valid_schedule_push:
  "valid_schedule g sch \<Longrightarrow> set (push_order sch i) = Vertices g \<and> distinct (push_order sch i)"
  by (simp add: valid_schedule_def range_of_def)

lemma valid_schedule_seed:
  "valid_schedule g sch \<Longrightarrow> set (seed_order sch) = Vertices g"
  by (simp add: valid_schedule_def range_of_def)





lemma cycle_graph:
  assumes "distinct [a, b, c]" "run_ops New (cycle_ops a b c) = Inr g"
  shows "Vertices g = {a, b, c} \<and> inner (adjacency g) a = {b} \<and> inner (adjacency g) b = {c} \<and>
         inner (adjacency g) c = {a}"
proof -
  from assms(2) have inv: "graph_inv g" by (rule run_ops_New_inv)
  from assms have "Vertices g = {a, b, c} \<and> Edges g = [(a, b), (b, c), (c, a)]"
    by (auto simp: cycle_ops_def New_def AddVertex_def AddEdge_def inner_def)
  with assms(1) show ?thesis by (auto simp: inner_adjacency [OF inv])
qed

lemma pr_iteration_cycle:
  assumes "valid_schedule g sch" "distinct [a, b, c]" "Vertices g = {a, b, c}"
    "inner (adjacency g) a = {b}" "inner (adjacency g) b = {c}" "inner (adjacency g) c = {a}"
    "scores a = Some x" "scores b = Some x" "scores c = Some x"
  shows "\<exists>y. pr_iteration float64 sch g damping n i scores a = Some y \<and>
             pr_iteration float64 sch g damping n i scores b = Some y \<and>
             pr_iteration float64 sch g damping n i scores c = Some y"
proof -
  let ?y = "(1 - damping) / n + damping * (x / float64 1)"
  note nb = valid_schedule_nbrs [OF assms(1)]
  from valid_schedule_push [OF assms(1), of i] assms(3)
  have po: "distinct (push_order sch i)" "set (push_order sch i) = {a, b, c}" by simp_all
  have one: "fold (pull float64 sch g damping i scores u) (push_order sch i) (Some ((1 - damping) / n)) = Some ?y"
    if "w \<in> {a, b, c}" "inner (adjacency g) w = {u}" "scores w = Some x"
      "\<forall>w' \<in> {a, b, c}. w' \<noteq> w \<longrightarrow> u \<notin> inner (adjacency g) w'" for w u
  proof -
    from that(1) po have "w \<in> set (push_order sch i)" by simp
    moreover from that(4) po have "\<forall>w' \<in> set (push_order sch i). w' \<noteq> w \<longrightarrow>
        (\<forall>acc. pull float64 sch g damping i scores u w' acc = acc)"
      by (simp add: pull_def nb)
    ultimately have "fold (pull float64 sch g damping i scores u) (push_order sch i) (Some ((1 - damping) / n))
        = pull float64 sch g damping i scores u w (Some ((1 - damping) / n))"
      by (rule fold_single [OF po(1)])
    also from that(2,3) have "\<dots> = Some ?y"
      by (simp add: pull_def nb lookup0_def)
    finally show ?thesis .
  qed
  from assms(2,4-9) have "fold (pull float64 sch g damping i scores a) (push_order sch i) (Some ((1 - damping) / n)) = Some ?y"
    by (intro one [of c a]) auto
  then have "pr_iteration float64 sch g damping n i scores a = Some ?y"
    by (simp add: pr_iteration_pull [OF assms(1)] assms(3))
  moreover from assms(2,4-9) have "fold (pull float64 sch g damping i scores b) (push_order sch i) (Some ((1 - damping) / n)) = Some ?y"
    by (intro one [of a b]) auto
  then have "pr_iteration float64 sch g damping n i scores b = Some ?y"
    by (simp add: pr_iteration_pull [OF assms(1)] assms(3))
  moreover from assms(2,4-9) have "fold (pull float64 sch g damping i scores c) (push_order sch i) (Some ((1 - damping) / n)) = Some ?y"
    by (intro one [of b c]) auto
  then have "pr_iteration float64 sch g damping n i scores c = Some ?y"
    by (simp add: pr_iteration_pull [OF assms(1)] assms(3))
  ultimately show ?thesis by simp
qed

lemma computePageRank_cycle:
  assumes "valid_schedule g sch" "distinct [a, b, c]" "Vertices g = {a, b, c}"
    "inner (adjacency g) a = {b}" "inner (adjacency g) b = {c}" "inner (adjacency g) c = {a}"
    "float64 3 \<noteq> 0"
  shows "\<exists>y. PageRankScores (computePageRank float64 sch g damping iterations) a = Some y \<and>
             PageRankScores (computePageRank float64 sch g damping iterations) b = Some y \<and>
             PageRankScores (computePageRank float64 sch g damping iterations) c = Some y"
proof -
  let ?P = "\<lambda>m :: string \<rightharpoonup> 'a. \<exists>y. m a = Some y \<and> m b = Some y \<and> m c = Some y"
  from assms(2,3) have card: "card (Vertices g) = 3" by simp
  let ?seed = "fold (\<lambda>v m. m(v \<mapsto> 1 / float64 3)) (seed_order sch) Map.empty"
  have "?P ?seed"
    by (simp add: fold_const_upd valid_schedule_seed [OF assms(1)] assms(3))
  moreover have "?P (pr_iteration float64 sch g damping (float64 3) j s)" if "?P s" for j s
    using that pr_iteration_cycle [OF assms(1-6)] by blast
  ultimately have "?P (pr_loop float64 sch g damping (float64 3) iterations 0 ?seed)"
    by (rule pr_loop_invariant [where P = ?P, rotated])
  with assms(7) show ?thesis by (simp add: computePageRank_def Let_def card)
qed

text \<open>
  Claim C9. For the graph with three different vertices \<open>a\<close>, \<open>b\<close>, \<open>c\<close> and the edges
  \<open>a \<rightarrow> b\<close>, \<open>b \<rightarrow> c\<close>, \<open>c \<rightarrow> a\<close>, the scorer's 100 iterations leave the same score at
  all three vertices, whatever order the map iterations take.
\<close>

theorem cycle_scores_equal:
  assumes "distinct [a, b, c]" "run_ops New (cycle_ops a b c) = Inr g" "valid_schedule g sch"
  shows "\<exists>y. PageRankScores (Analyze sch g) a = Some y \<and> PageRankScores (Analyze sch g) b = Some y \<and>
             PageRankScores (Analyze sch g) c = Some y"
proof -
  from cycle_graph [OF assms(1,2)]
  have g: "Vertices g = {a, b, c}" "inner (adjacency g) a = {b}" "inner (adjacency g) b = {c}"
    "inner (adjacency g) c = {a}" by simp_all
  have "real_of_int 3 \<noteq> 0" by simp
  from computePageRank_cycle [of g sch a b c real_of_int, OF assms(3,1) g this]
  show ?thesis unfolding Analyze_def .
qed









subsection \<open>The scorer on concrete graphs\<close>



lemma valid_sch3: "valid_schedule g3 sch3"
  by (auto simp: valid_schedule_def range_of_def g3_def sch3_def inner_def)

lemma run_cycle3: "run_ops New (cycle_ops ''A'' ''B'' ''C'') = Inr g3"
  apply (simp add: cycle_ops_def g3_def New_def AddVertex_def AddEdge_def inner_def)
  apply (auto simp: fun_eq_iff)
  done



theorem cycle_scores_equal_witness:
  "distinct [''A'', ''B'', ''C''] \<and> run_ops New (cycle_ops ''A'' ''B'' ''C'') = Inr g3 \<and>
   valid_schedule g3 sch3 \<and>
   (\<exists>y. PageRankScores (Analyze sch3 g3) ''A'' = Some y \<and> PageRankScores (Analyze sch3 g3) ''B'' = Some y \<and>
        PageRankScores (Analyze sch3 g3) ''C'' = Some y)"
proof -
  have d: "distinct [''A'', ''B'', ''C'']" by simp
  from cycle_scores_equal [OF d run_cycle3 valid_sch3] d run_cycle3 valid_sch3
  show ?thesis by (intro conjI)
qed

section \<open>Proofs about the hotspot list\<close>

lemma set_insertBy: "set (insertBy lt x ys) = insert x (set ys)"
  by (induction ys) auto

lemma mset_insertBy: "mset (insertBy lt x ys) = add_mset x (mset ys)"
  by (induction ys) auto

lemma sorted_insertBy:
  assumes tr: "\<And>a b c. \<not> lt b a \<Longrightarrow> \<not> lt c b \<Longrightarrow> \<not> lt c a"
    and asym: "\<And>a b. lt a b \<Longrightarrow> \<not> lt b a"
  shows "sorted_wrt (\<lambda>a b. \<not> lt b a) ys \<Longrightarrow> sorted_wrt (\<lambda>a b. \<not> lt b a) (insertBy lt x ys)"
proof (induction ys)
  case Nil
  then show ?case by simp
next
  case (Cons y ys)
  show ?case
  proof (cases "lt y x")
    case True
    with Cons asym show ?thesis by (auto simp: set_insertBy)
  next
    case False
    with Cons.prems tr show ?thesis by auto
  qed
qed

lemma isortBy_sorts:
  assumes tr: "\<And>a b c. \<not> lt b a \<Longrightarrow> \<not> lt c b \<Longrightarrow> \<not> lt c a"
    and asym: "\<And>a b. lt a b \<Longrightarrow> \<not> lt b a"
  shows "sorts_by lt (isortBy lt)"
proof -
  have "mset (isortBy lt xs) = mset xs" for xs
    by (induction xs) (simp_all add: isortBy_def mset_insertBy)
  moreover have "sorted_wrt (\<lambda>a b. \<not> lt b a) (isortBy lt xs)" for xs
  proof (induction xs)
    case Nil
    then show ?case by (simp add: isortBy_def)
  next
    case (Cons x xs)
    from sorted_insertBy [of lt, OF tr asym Cons] show ?case by (simp add: isortBy_def)
  qed
  ultimately show ?thesis by (simp add: sorts_by_def)
qed




section \<open>Proofs about the declaration graph\<close>

subsection \<open>The matcher implements the word-boundary rule\<close>

lemma matchFrom_step:
  "matchFrom source typeName i =
     (if i + length typeName \<le> length source
      then (if matchAt source typeName i then True else matchFrom source typeName (i + 1))
      else False)"
  by (subst matchFrom.simps) (auto simp: matchAt_def Let_def)

lemma matchFrom_iff: "matchFrom source typeName i \<longleftrightarrow> (\<exists>k \<ge> i. matchAt source typeName k)"
proof (induction "Suc (length source) - i" arbitrary: i rule: less_induct)
  case less
  show ?case
  proof (cases "i + length typeName \<le> length source")
    case False
    then have "\<not> matchAt source typeName k" if "k \<ge> i" for k
      using that by (simp add: matchAt_def)
    with False show ?thesis by (subst matchFrom_step) auto
  next
    case True
    show ?thesis
    proof (cases "matchAt source typeName i")
      case at: True
      with True have "matchFrom source typeName i" by (subst matchFrom_step) simp
      with at show ?thesis by blast
    next
      case False
      from True have "Suc (length source) - (i + 1) < Suc (length source) - i" by simp
      then have "matchFrom source typeName (i + 1) \<longleftrightarrow> (\<exists>k \<ge> i + 1. matchAt source typeName k)"
        by (rule less)
      moreover from False True have "matchFrom source typeName i = matchFrom source typeName (i + 1)"
        by (subst matchFrom_step) simp
      moreover from False have "(\<exists>k \<ge> i + 1. matchAt source typeName k) \<longleftrightarrow> (\<exists>k \<ge> i. matchAt source typeName k)"
        by (metis Suc_eq_plus1 Suc_leD Suc_leI le_neq_implies_less)
      ultimately show ?thesis by simp
    qed
  qed
qed

lemma last_take_nth:
  assumes "0 < k" "k \<le> length xs"
  shows "last (take k xs) = xs ! (k - 1)"
proof -
  from assms have ne: "take k xs \<noteq> []" by auto
  then have "last (take k xs) = take k xs ! (length (take k xs) - 1)" by (rule last_conv_nth)
  also from assms have "\<dots> = take k xs ! (k - 1)" by (simp add: min_def)
  also from assms have "\<dots> = xs ! (k - 1)" by simp
  finally show ?thesis .
qed

lemma matchAt_occurrence:
  "(\<exists>k. matchAt content ident k) \<longleftrightarrow> word_boundary_occurrence content ident"
proof
  assume "\<exists>k. matchAt content ident k"
  then obtain k where k: "matchAt content ident k" ..
  let ?pre = "take k content" and ?post = "drop (k + length ident) content"
  from k have le: "k + length ident \<le> length content"
    and eq: "take (length ident) (drop k content) = ident" by (simp_all add: matchAt_def)
  have "content = ?pre @ drop k content" by simp
  also have "drop k content = take (length ident) (drop k content) @ drop (length ident) (drop k content)"
    by (simp only: append_take_drop_id)
  also have "drop (length ident) (drop k content) = ?post" by (simp add: add.commute)
  finally have c: "content = ?pre @ ident @ ?post" by (simp only: eq)
  have "?pre = [] \<or> \<not> isIdentChar (last ?pre)"
  proof (cases "k = 0")
    case True
    then show ?thesis by simp
  next
    case False
    with le have "last ?pre = content ! (k - 1)"
      by (intro last_take_nth) simp_all
    with k False show ?thesis by (simp add: matchAt_def)
  qed
  moreover have "?post = [] \<or> \<not> isIdentChar (hd ?post)"
  proof (cases "k + length ident < length content")
    case False
    then show ?thesis by simp
  next
    case True
    then have "hd ?post = content ! (k + length ident)" by (simp add: hd_drop_conv_nth)
    with k True show ?thesis by (simp add: matchAt_def)
  qed
  ultimately show "word_boundary_occurrence content ident"
    unfolding word_boundary_occurrence_def using c by blast
next
  assume "word_boundary_occurrence content ident"
  then obtain pre post where c: "content = pre @ ident @ post"
    and pre: "pre = [] \<or> \<not> isIdentChar (last pre)"
    and post: "post = [] \<or> \<not> isIdentChar (hd post)"
    unfolding word_boundary_occurrence_def by blast
  have "matchAt content ident (length pre)"
    unfolding matchAt_def
  proof (intro conjI)
    show "length pre + length ident \<le> length content" by (simp add: c)
    show "take (length ident) (drop (length pre) content) = ident" by (simp add: c)
    show "\<not> (0 < length pre \<and> isIdentChar (content ! (length pre - 1)))"
    proof (cases "pre = []")
      case True
      then show ?thesis by simp
    next
      case False
      then have "content ! (length pre - 1) = last pre"
        by (simp add: c nth_append last_conv_nth)
      with pre False show ?thesis by simp
    qed
    show "\<not> (length pre + length ident < length content \<and> isIdentChar (content ! (length pre + length ident)))"
    proof (cases "post = []")
      case True
      then show ?thesis by (simp add: c)
    next
      case False
      then have "content ! (length pre + length ident) = hd post"
        by (simp add: c nth_append hd_conv_nth)
      with post False show ?thesis by simp
    qed
  qed
  then show "\<exists>k. matchAt content ident k" ..
qed

lemma matchGoTypeRef_word_boundary:
  "matchGoTypeRef content ident \<longleftrightarrow> word_boundary_occurrence content ident"
  by (simp add: matchGoTypeRef_def matchFrom_iff matchAt_occurrence)

subsection \<open>The caps\<close>

lemma length_capDecls: "length (capDecls env scores ad) \<le> 80"
  by (simp add: capDecls_def)

lemma length_capEdges: "length (capEdges n links) \<le> max 10 (3 * n)"
  by (simp add: capEdges_def Let_def)

lemma length_filter_take: "length (filter P (take n xs)) \<le> length (filter P xs)"
proof -
  have "length (filter P xs) = length (filter P (take n xs)) + length (filter P (drop n xs))"
    by (metis append_take_drop_id filter_append length_append)
  then show ?thesis by simp
qed

lemma filter_capEdges: "length (filter P (capEdges n links)) \<le> length (filter P links)"
  by (simp add: capEdges_def Let_def length_filter_take)

lemma length_topCandidates: "length (topCandidates env cands) \<le> 5"
  by (simp add: topCandidates_def Let_def)

lemma fold_link_append:
  "fold (\<lambda>c links. if target c \<in> nodeSet then links @ [\<lparr>Source = srcID, Target = target c\<rparr>] else links) cs links
   = links @ map (\<lambda>c. \<lparr>Source = srcID, Target = target c\<rparr>) (filter (\<lambda>c. target c \<in> nodeSet) cs)"
  by (induction cs arbitrary: links) simp_all

lemma capSource_append:
  "capSource env nodeSet out srcID links =
     links @ (if srcID \<in> nodeSet
              then map (\<lambda>c. \<lparr>Source = srcID, Target = target c\<rparr>)
                     (filter (\<lambda>c. target c \<in> nodeSet) (topCandidates env (lookupList out srcID)))
              else [])"
  by (simp add: capSource_def fold_link_append)

lemma capSource_other:
  "s \<noteq> srcID \<Longrightarrow>
   filter (\<lambda>l. Source l = s) (capSource env nodeSet out srcID links) = filter (\<lambda>l. Source l = s) links"
  by (simp add: capSource_append filter_map o_def)

lemma capSource_own:
  "length (filter (\<lambda>l. Source l = s) (capSource env nodeSet out srcID links))
   \<le> length (filter (\<lambda>l. Source l = s) links) + 5"
proof -
  let ?new = "if srcID \<in> nodeSet
              then map (\<lambda>c. \<lparr>Source = srcID, Target = target c\<rparr>)
                     (filter (\<lambda>c. target c \<in> nodeSet) (topCandidates env (lookupList out srcID)))
              else []"
  have "length ?new \<le> length (topCandidates env (lookupList out srcID))" by simp
  also have "\<dots> \<le> 5" by (rule length_topCandidates)
  finally have "length ?new \<le> 5" .
  moreover have "length (filter (\<lambda>l. Source l = s) ?new) \<le> length ?new" by (rule length_filter_le)
  ultimately have "length (filter (\<lambda>l. Source l = s) ?new) \<le> 5" by (rule le_trans [rotated])
  then show ?thesis by (simp only: capSource_append filter_append length_append add_le_cancel_left)
qed

lemma fold_capSource_per_source:
  "distinct order \<Longrightarrow>
   length (filter (\<lambda>l. Source l = s) (fold (capSource env nodeSet out) order links))
   \<le> length (filter (\<lambda>l. Source l = s) links) + (if s \<in> set order then 5 else 0)"
proof (induction order arbitrary: links)
  case Nil
  then show ?case by simp
next
  case (Cons k ks)
  show ?case
  proof (cases "s = k")
    case True
    with Cons.prems have "s \<notin> set ks" by simp
    with Cons.IH [of "capSource env nodeSet out k links"] Cons.prems
    have "length (filter (\<lambda>l. Source l = s) (fold (capSource env nodeSet out) ks (capSource env nodeSet out k links)))
          \<le> length (filter (\<lambda>l. Source l = s) (capSource env nodeSet out k links))" by simp
    also have "\<dots> \<le> length (filter (\<lambda>l. Source l = s) links) + 5" by (rule capSource_own)
    finally show ?thesis using True by simp
  next
    case False
    with Cons.IH [of "capSource env nodeSet out k links"] Cons.prems show ?thesis
      by (simp add: capSource_other)
  qed
qed

lemma topCandidates_best:
  assumes "sorts_by (\<lambda>a b. tgtScore a > tgtScore b) (sortCands env (\<lambda>a b. tgtScore a > tgtScore b))"
  shows "\<exists>dropped. mset (topCandidates env cands) + mset dropped = mset cands \<and>
           length (topCandidates env cands) = min 5 (length cands) \<and>
           (\<forall>a \<in> set (topCandidates env cands). \<forall>b \<in> set dropped. tgtScore b \<le> tgtScore a)"
proof -
  let ?s = "sortCands env (\<lambda>a b. tgtScore a > tgtScore b) cands"
  from assms have m: "mset ?s = mset cands" and s: "sorted_wrt (\<lambda>a b. \<not> tgtScore b > tgtScore a) ?s"
    by (simp_all add: sorts_by_def)
  from m have len: "length ?s = length cands" by (rule mset_eq_length)
  have top: "topCandidates env cands = take 5 ?s"
    by (simp add: topCandidates_def Let_def)
  have "mset (take 5 ?s) + mset (drop 5 ?s) = mset cands"
    using m by (metis append_take_drop_id mset_append)
  moreover have "length (take 5 ?s) = min 5 (length cands)" by (simp add: len min.commute)
  moreover from s have "sorted_wrt (\<lambda>a b. \<not> tgtScore b > tgtScore a) (take 5 ?s @ drop 5 ?s)" by simp
  then have "\<forall>a \<in> set (take 5 ?s). \<forall>b \<in> set (drop 5 ?s). tgtScore b \<le> tgtScore a"
    by (simp only: sorted_wrt_append not_less) blast
  ultimately show ?thesis unfolding top by blast
qed

text \<open>
  Claim C5. For every input, every behaviour of \<^verbatim>\<open>sort.Slice\<close> within its contract and
  every visiting order of the map iterations, the result has at most 80 nodes and at
  most \<open>max(10, 3 \<times> nodeCount)\<close> links, and no node has more than 5 outgoing links;
  the per-source cap keeps \<open>min(5, length)\<close> candidates of a list, none of which scores
  below a candidate it drops.
\<close>

theorem buildDeclGraph_caps:
  assumes "distinct (outgoingOrder env)"
    and "sorts_by (\<lambda>a b. tgtScore a > tgtScore b) (sortCands env (\<lambda>a b. tgtScore a > tgtScore b))"
  shows "length (Nodes (buildDeclGraph env ms scores)) \<le> 80 \<and>
         length (Links (buildDeclGraph env ms scores)) \<le> max 10 (3 * length (Nodes (buildDeclGraph env ms scores))) \<and>
         (\<forall>s. length (filter (\<lambda>l. Source l = s) (Links (buildDeclGraph env ms scores))) \<le> 5) \<and>
         (\<forall>cands. \<exists>dropped. mset (topCandidates env cands) + mset dropped = mset cands \<and>
            length (topCandidates env cands) = min 5 (length cands) \<and>
            (\<forall>a \<in> set (topCandidates env cands). \<forall>b \<in> set dropped. tgtScore b \<le> tgtScore a))"
proof -
  have n: "length (Nodes (buildDeclGraph env ms scores)) \<le> 80"
    by (simp add: buildDeclGraph_def Let_def length_capDecls)
  have l: "length (Links (buildDeclGraph env ms scores)) \<le> max 10 (3 * length (Nodes (buildDeclGraph env ms scores)))"
    using length_capEdges [of "length (capDecls env scores (collectDecls ms))"]
    by (simp add: buildDeclGraph_def Let_def)
  have p: "length (filter (\<lambda>l. Source l = s) (Links (buildDeclGraph env ms scores))) \<le> 5" for s
  proof -
    let ?links = "fold (capSource env (mkNodeSet (capDecls env scores (collectDecls ms)))
        (outgoing (declEdges env (Files ms) (mkNodeScores scores (capDecls env scores (collectDecls ms)))
           (capDecls env scores (collectDecls ms))))) (outgoingOrder env) []"
    have "length (filter (\<lambda>l. Source l = s) ?links)
          \<le> length (filter (\<lambda>l. Source l = s) ([] :: gLink list)) + (if s \<in> set (outgoingOrder env) then 5 else 0)"
      by (rule fold_capSource_per_source [OF assms(1)])
    then have "length (filter (\<lambda>l. Source l = s) ?links) \<le> 5"
      by (simp split: if_splits)
    then show ?thesis
      using filter_capEdges [of "\<lambda>l. Source l = s" "length (capDecls env scores (collectDecls ms))" ?links]
      by (simp add: buildDeclGraph_def Let_def)
  qed
  from n l p topCandidates_best [OF assms(2)] show ?thesis by blast
qed

lemma isortBy_tgtScore:
  "sorts_by (\<lambda>a b :: candidate. tgtScore a > tgtScore b) (isortBy (\<lambda>a b. tgtScore a > tgtScore b))"
  by (rule isortBy_sorts) auto

subsection \<open>Edge keys and the growth of the edge state\<close>

lemma split_at_char:
  "c \<notin> set xs \<Longrightarrow> c \<notin> set xs' \<Longrightarrow> xs @ c # ys = xs' @ c # ys' \<Longrightarrow> xs = xs' \<and> ys = ys'"
proof (induction xs arbitrary: xs')
  case Nil
  then show ?case by (cases xs') auto
next
  case (Cons x xs)
  then show ?case by (cases xs') auto
qed

lemma edge_key_inj:
  assumes "CHR ''>'' \<notin> set s" "CHR ''>'' \<notin> set s'" "s @ ''->'' @ t = s' @ ''->'' @ t'"
  shows "s = s' \<and> t = t'"
proof -
  from assms(3) have "(s @ ''-'') @ CHR ''>'' # t = (s' @ ''-'') @ CHR ''>'' # t'" by simp
  moreover from assms(1,2) have "CHR ''>'' \<notin> set (s @ ''-'')" "CHR ''>'' \<notin> set (s' @ ''-'')" by simp_all
  ultimately have "s @ ''-'' = s' @ ''-'' \<and> t = t'" by (metis split_at_char)
  then show ?thesis by simp
qed

lemma lookupList_upd: "lookupList (m(k \<mapsto> xs)) k' = (if k' = k then xs else lookupList m k')"
  by (simp add: lookupList_def)

lemma has_candidate_push:
  "has_candidate (pushCandidate sc srcID tgtID ek st) s t \<longleftrightarrow>
   has_candidate st s t \<or> (s = srcID \<and> t = tgtID)"
  by (auto simp: has_candidate_def pushCandidate_def lookupList_upd)

lemma seen_push: "seen (pushCandidate sc srcID tgtID ek st) = insert ek (seen st)"
  by (simp add: pushCandidate_def)

lemma grows_refl: "grows st st"
  by (simp add: grows_def)

lemma grows_push:
  assumes "grows st0 st" "CHR ''>'' \<notin> set srcID"
  shows "grows st0 (pushCandidate sc srcID tgtID (srcID @ ''->'' @ tgtID) st)"
  unfolding grows_def
proof (intro conjI allI impI ballI)
  from assms(1) show "seen st0 \<subseteq> seen (pushCandidate sc srcID tgtID (srcID @ ''->'' @ tgtID) st)"
    by (auto simp: grows_def seen_push)
next
  fix s t assume "has_candidate st0 s t"
  with assms(1) show "has_candidate (pushCandidate sc srcID tgtID (srcID @ ''->'' @ tgtID) st) s t"
    by (simp add: grows_def has_candidate_push)
next
  fix k assume k: "k \<in> seen (pushCandidate sc srcID tgtID (srcID @ ''->'' @ tgtID) st) - seen st0"
  show "\<exists>s t. CHR ''>'' \<notin> set s \<and> k = s @ ''->'' @ t \<and>
              has_candidate (pushCandidate sc srcID tgtID (srcID @ ''->'' @ tgtID) st) s t"
  proof (cases "k = srcID @ ''->'' @ tgtID")
    case True
    with assms(2) show ?thesis by (auto simp: has_candidate_push)
  next
    case False
    with k have "k \<in> seen st - seen st0" by (simp add: seen_push)
    with assms(1) obtain s t where "CHR ''>'' \<notin> set s" "k = s @ ''->'' @ t" "has_candidate st s t"
      unfolding grows_def by blast
    then show ?thesis by (auto simp: has_candidate_push)
  qed
qed

lemma grows_linkIfMatch:
  "grows st0 st \<Longrightarrow> CHR ''>'' \<notin> set srcID \<Longrightarrow> grows st0 (linkIfMatch sc cs srcID tgt st)"
  using grows_push [of st0 st srcID sc "fp tgt @ ''::'' @ name tgt"]
  by (simp add: linkIfMatch_def Let_def)

lemma grows_coLocatePair:
  "grows st0 st \<Longrightarrow> CHR ''>'' \<notin> set (nodeID src) \<Longrightarrow> grows st0 (coLocatePair sc (i, src) (j, tgt) st)"
  using grows_push [of st0 st "fp src @ ''::'' @ name src" sc "fp tgt @ ''::'' @ name tgt"]
  by (simp add: coLocatePair_def Let_def nodeID_def)

lemma fold_invariant:
  "P st \<Longrightarrow> (\<And>x st. x \<in> set xs \<Longrightarrow> P st \<Longrightarrow> P (f x st)) \<Longrightarrow> P (fold f xs st)"
  by (induction xs arbitrary: st) simp_all

lemma fold_establish:
  assumes "x \<in> set xs" "\<And>st. P st \<Longrightarrow> Q (f x st)" "\<And>y st. y \<in> set xs \<Longrightarrow> Q st \<Longrightarrow> Q (f y st)"
    "\<And>y st. y \<in> set xs \<Longrightarrow> P st \<Longrightarrow> P (f y st)" "P st"
  shows "Q (fold f xs st)"
  using assms
proof (induction xs arbitrary: st)
  case Nil
  then show ?case by simp
next
  case (Cons y ys)
  show ?case
  proof (cases "x = y")
    case True
    from Cons.prems(2) [OF Cons.prems(5)] True have "Q (f y st)" by simp
    then have "Q (fold f ys (f y st))"
      by (rule fold_invariant) (simp add: Cons.prems(3))
    then show ?thesis by simp
  next
    case False
    with Cons.prems(1) have "x \<in> set ys" by simp
    moreover have "P (f y st)" by (rule Cons.prems(4)) (simp_all add: Cons.prems(5))
    ultimately have "Q (fold f ys (f y st))"
      using Cons.prems(2,3,4) by (intro Cons.IH) simp_all
    then show ?thesis by simp
  qed
qed

subsection \<open>Co-location\<close>




lemma coLocateFile_unfold:
  "2 \<le> length ns \<Longrightarrow> length ns \<le> 20 \<Longrightarrow>
   coLocateFile sc ns st =
     fold (\<lambda>isrc. fold (coLocatePair sc isrc) (List.enumerate 0 ns)) (List.enumerate 0 ns) st"
  by (simp add: coLocateFile_def)


lemma enumerate_snd: "p \<in> set (List.enumerate 0 ns) \<Longrightarrow> snd p \<in> set ns"
  using nth_mem [of "fst p" ns] by (auto simp: in_set_enumerate_eq)

lemma grows_coLocateFile:
  assumes "\<forall>d \<in> set ns. CHR ''>'' \<notin> set (nodeID d)" "grows st0 st"
  shows "grows st0 (coLocateFile sc ns st)"
proof (cases "2 \<le> length ns \<and> length ns \<le> 20")
  case False
  with assms(2) show ?thesis by (auto simp: coLocateFile_def)
next
  case True
  have inner: "grows st0 (fold (coLocatePair sc isrc) (List.enumerate 0 ns) st')"
    if "isrc \<in> set (List.enumerate 0 ns)" "grows st0 st'" for isrc st'
  proof (rule fold_invariant [where P = "grows st0", OF that(2)])
    fix jtgt st''
    assume "grows st0 st''"
    with assms(1) enumerate_snd [OF that(1)] show "grows st0 (coLocatePair sc isrc jtgt st'')"
      by (cases isrc; cases jtgt) (simp add: grows_coLocatePair)
  qed
  from True have "coLocateFile sc ns st =
     fold (\<lambda>isrc. fold (coLocatePair sc isrc) (List.enumerate 0 ns)) (List.enumerate 0 ns) st"
    by (simp add: coLocateFile_unfold)
  moreover have "grows st0 (fold (\<lambda>isrc. fold (coLocatePair sc isrc) (List.enumerate 0 ns)) (List.enumerate 0 ns) st)"
    by (rule fold_invariant [where P = "grows st0", OF assms(2)]) (rule inner)
  ultimately show ?thesis by simp
qed


lemma grows_new_key:
  assumes "grows st0 st" "CHR ''>'' \<notin> set s" "s @ ''->'' @ t \<in> seen st" "s @ ''->'' @ t \<notin> seen st0"
  shows "has_candidate st s t"
proof -
  from assms(1,3,4) obtain s' t' where "CHR ''>'' \<notin> set s'" "s @ ''->'' @ t = s' @ ''->'' @ t'"
    "has_candidate st s' t'"
    unfolding grows_def by blast
  with edge_key_inj [OF assms(2) this(1,2)] show ?thesis by simp
qed



subsection \<open>The four strategies keep the edge state consistent\<close>

lemma mkFileNodes_fold:
  "lookupList (fold (\<lambda>d m. m(fp d \<mapsto> lookupList m (fp d) @ [d])) ad m) k =
   lookupList m k @ filter (\<lambda>d. fp d = k) ad"
  by (induction ad arbitrary: m) (simp_all add: lookupList_upd)

lemma mkFileNodes_filter: "lookupList (mkFileNodes ad) k = filter (\<lambda>d. fp d = k) ad"
  by (simp add: mkFileNodes_def mkFileNodes_fold) (simp add: lookupList_def)

lemma mkFileContents_fold:
  "fold (\<lambda>f m. case readFile env (FilePath f) of None \<Rightarrow> m | Some content \<Rightarrow> m(FilePath f \<mapsto> content)) files m p
   = (if p \<in> FilePath ` set files then (case readFile env p of None \<Rightarrow> m p | Some c \<Rightarrow> Some c) else m p)"
  by (induction files arbitrary: m) (auto split: option.splits)

lemma mkFileContents_apply:
  "mkFileContents env files p = (if p \<in> FilePath ` set files then readFile env p else None)"
  by (simp add: mkFileContents_def mkFileContents_fold split: option.splits)

lemma grows_crossRefFile:
  assumes "\<forall>d \<in> set ad. CHR ''>'' \<notin> set (nodeID d)" "grows st0 st"
  shows "grows st0 (crossRefFile sc ad (mkFileNodes ad) fc p st)"
proof (cases "fc p")
  case None
  with assms(2) show ?thesis by (simp add: crossRefFile_def)
next
  case (Some cs)
  have tgt: "grows st0 (crossRefTarget sc p cs d tgt s)" if "d \<in> set ad" "grows st0 s" for d tgt s
    using that assms(1) grows_linkIfMatch [of st0 s "nodeID d" sc cs tgt]
    by (simp add: crossRefTarget_def nodeID_def)
  have "grows st0 (fold (\<lambda>d. fold (crossRefTarget sc p cs d) ad) (lookupList (mkFileNodes ad) p) st)"
  proof (rule fold_invariant [where P = "grows st0", OF assms(2)])
    fix d s
    assume d: "d \<in> set (lookupList (mkFileNodes ad) p)" and s: "grows st0 s"
    from d have "d \<in> set ad" by (simp add: mkFileNodes_filter)
    then show "grows st0 (fold (crossRefTarget sc p cs d) ad s)"
      by (intro fold_invariant [where P = "grows st0", OF s] tgt)
  qed
  with Some show ?thesis by (simp add: crossRefFile_def)
qed

lemma grows_strategy1:
  "\<forall>d \<in> set ad. CHR ''>'' \<notin> set (nodeID d) \<Longrightarrow> grows st0 st \<Longrightarrow>
   grows st0 (strategy1 env files sc ad st)"
  unfolding strategy1_def by (rule fold_invariant [where P = "grows st0"]) (simp_all add: grows_crossRefFile)

lemma grows_strategy2:
  assumes "\<forall>d \<in> set ad. CHR ''>'' \<notin> set (nodeID d)" "grows st0 st"
  shows "grows st0 (strategy2 env sc ad st)"
  unfolding strategy2_def
proof (rule fold_invariant [where P = "grows st0", OF assms(2)])
  fix k s
  assume "grows st0 s"
  moreover from assms(1) have "\<forall>d \<in> set (lookupList (mkFileNodes ad) k). CHR ''>'' \<notin> set (nodeID d)"
    by (simp add: mkFileNodes_filter)
  ultimately show "grows st0 (coLocateFile sc (lookupList (mkFileNodes ad) k) s)"
    by (intro grows_coLocateFile)
qed

lemma grows_serviceSource:
  assumes "CHR ''>'' \<notin> set (nodeID src)" "grows st0 st"
  shows "grows st0 (serviceSource sc ad fc src st)"
proof -
  have "grows st0 (serviceTarget sc cs (nodeID src) tgt s)" if "grows st0 s" for cs tgt s
    using that assms(1) by (simp add: serviceTarget_def grows_linkIfMatch)
  then have "grows st0 (fold (serviceTarget sc cs (nodeID src)) ad st)" for cs
    by (intro fold_invariant [where P = "grows st0", OF assms(2)])
  with assms(2) show ?thesis by (simp add: serviceSource_def Let_def nodeID_def)
qed

lemma grows_strategy3:
  "\<forall>d \<in> set ad. CHR ''>'' \<notin> set (nodeID d) \<Longrightarrow> grows st0 st \<Longrightarrow>
   grows st0 (strategy3 env files sc ad st)"
  unfolding strategy3_def by (rule fold_invariant [where P = "grows st0"]) (simp_all add: grows_serviceSource)

lemma grows_callSource:
  assumes "CHR ''>'' \<notin> set (nodeID src)" "grows st0 st"
  shows "grows st0 (callSource sc ad fc src st)"
proof -
  have "grows st0 (callTarget sc cs src tgt s)" if "grows st0 s" for cs tgt s
    using that assms(1) grows_linkIfMatch [of st0 s "nodeID src" sc cs tgt]
    by (simp add: callTarget_def nodeID_def)
  then have "grows st0 (fold (callTarget sc cs src) ad st)" for cs
    by (intro fold_invariant [where P = "grows st0", OF assms(2)])
  with assms(2) show ?thesis by (simp add: callSource_def Let_def)
qed

lemma grows_strategy4:
  "\<forall>d \<in> set ad. CHR ''>'' \<notin> set (nodeID d) \<Longrightarrow> grows st0 st \<Longrightarrow>
   grows st0 (strategy4 env files sc ad st)"
  unfolding strategy4_def by (rule fold_invariant [where P = "grows st0"]) (simp_all add: grows_callSource)

lemma grows_seen: "grows st0 st \<Longrightarrow> k \<in> seen st0 \<Longrightarrow> k \<in> seen st"
  by (auto simp: grows_def)

lemma seen_linkIfMatch:
  "matchGoTypeRef cs (name tgt) \<Longrightarrow> srcID @ ''->'' @ nodeID tgt \<in> seen (linkIfMatch sc cs srcID tgt st)"
  by (simp add: linkIfMatch_def Let_def nodeID_def seen_push)

lemma seen_serviceSource:
  assumes gt: "\<forall>d \<in> set ad. CHR ''>'' \<notin> set (nodeID d)"
    and src: "src \<in> set ad" "kind src = DeclService" "fc (fp src) = Some cs" "cs \<noteq> []"
    and tgt: "tgt \<in> set ad" "kind tgt = DeclMessage" "4 < length (name tgt)" "matchGoTypeRef cs (name tgt)"
  shows "nodeID src @ ''->'' @ nodeID tgt \<in> seen (serviceSource sc ad fc src st)"
proof -
  let ?k = "nodeID src @ ''->'' @ nodeID tgt"
  from gt src(1) have g: "CHR ''>'' \<notin> set (nodeID src)" by simp
  have keep: "?k \<in> seen (serviceTarget sc cs (nodeID src) y s)" if "?k \<in> seen s" for y s
  proof -
    have "grows s (serviceTarget sc cs (nodeID src) y s)"
      using g by (simp add: serviceTarget_def grows_linkIfMatch grows_refl)
    then show ?thesis using that by (rule grows_seen)
  qed
  have "?k \<in> seen (fold (serviceTarget sc cs (nodeID src)) ad st)"
  proof (rule fold_establish [where x = tgt and P = "\<lambda>s. True" and Q = "\<lambda>s. ?k \<in> seen s"])
    show "tgt \<in> set ad" by (rule tgt(1))
    show "?k \<in> seen (serviceTarget sc cs (nodeID src) tgt s)" for s
    proof -
      from tgt(2,3) have "serviceTarget sc cs (nodeID src) tgt s = linkIfMatch sc cs (nodeID src) tgt s"
        by (simp add: serviceTarget_def)
      with seen_linkIfMatch [OF tgt(4), of "nodeID src" sc s] show ?thesis by (simp only:)
    qed
    show "?k \<in> seen (serviceTarget sc cs (nodeID src) y s)" if "?k \<in> seen s" for y s
      using that by (rule keep)
  qed simp_all
  with src(2,3,4) show ?thesis by (simp add: serviceSource_def Let_def nodeID_def)
qed

subsection \<open>Service to message edges, and co-location\<close>

text \<open>
  Claim C2, as amended. Among the candidate nodes \<open>ad\<close> (no node id containing \<open>>\<close>): for
  every service-kind node whose file is one of the component's files and was read with
  non-empty content, and every message-kind node whose name has more than 4 characters
  and occurs in that content under the word-boundary rule, the candidate edges after the
  four strategies hold the edge from the service to the message.
\<close>

theorem service_message_candidate:
  assumes "\<forall>d \<in> set ad. CHR ''>'' \<notin> set (nodeID d)"
    and "src \<in> set ad" "kind src = DeclService"
    and "fp src \<in> FilePath ` set files" "readFile env (fp src) = Some cs" "cs \<noteq> []"
    and "tgt \<in> set ad" "kind tgt = DeclMessage" "4 < length (name tgt)"
    and "word_boundary_occurrence cs (name tgt)"
  shows "has_candidate (declEdges env files nodeScores ad) (nodeID src) (nodeID tgt)"
proof -
  let ?k = "nodeID src @ ''->'' @ nodeID tgt"
  let ?E = "\<lparr>outgoing = Map.empty, seen = {}\<rparr> :: edge_state"
  let ?st2 = "strategy2 env nodeScores ad (strategy1 env files nodeScores ad ?E)"
  let ?st3 = "strategy3 env files nodeScores ad ?st2"
  let ?st4 = "strategy4 env files nodeScores ad ?st3"
  note gt = assms(1)
  from assms(4,5) have fc: "mkFileContents env files (fp src) = Some cs"
    by (simp add: mkFileContents_apply)
  from assms(10) have m: "matchGoTypeRef cs (name tgt)" by (simp add: matchGoTypeRef_word_boundary)
  have g4: "grows ?E ?st4"
    by (intro grows_strategy4 grows_strategy3 grows_strategy2 grows_strategy1 gt grows_refl)
  have "?k \<in> seen ?st3"
    unfolding strategy3_def
  proof (rule fold_establish [where x = src and P = "\<lambda>s. True" and Q = "\<lambda>s. ?k \<in> seen s"])
    show "src \<in> set ad" by (rule assms(2))
    show "?k \<in> seen (serviceSource nodeScores ad (mkFileContents env files) src s)" for s
      by (rule seen_serviceSource [where fc = "mkFileContents env files", OF gt assms(2,3) fc assms(6,7,8,9) m])
    show "?k \<in> seen (serviceSource nodeScores ad (mkFileContents env files) y s)"
      if "y \<in> set ad" "?k \<in> seen s" for y s
    proof -
      from gt that(1) have "grows s (serviceSource nodeScores ad (mkFileContents env files) y s)"
        by (intro grows_serviceSource grows_refl) simp
      then show ?thesis using that(2) by (rule grows_seen)
    qed
  qed simp_all
  moreover have "grows ?st3 ?st4" by (intro grows_strategy4 gt grows_refl)
  ultimately have "?k \<in> seen ?st4" by (rule grows_seen [rotated])
  moreover from gt assms(2) have "CHR ''>'' \<notin> set (nodeID src)" by simp
  moreover have "?k \<notin> seen ?E" by simp
  ultimately have "has_candidate ?st4 (nodeID src) (nodeID tgt)"
    using g4 by (intro grows_new_key [where ?st0.0 = ?E])
  then show ?thesis by (simp add: declEdges_def)
qed


section \<open>The declaration graph on concrete inputs\<close>

lemma seven_eval:
  "length (Nodes (buildDeclGraph env_seven ms_seven Map.empty)) = 7 \<and>
   length (Links (buildDeclGraph env_seven ms_seven Map.empty)) = 21 \<and>
   length (filter (\<lambda>l. Source l = ''m.go::Ant'') (Links (buildDeclGraph env_seven ms_seven Map.empty))) = 5"
  by code_simp

theorem buildDeclGraph_caps_witness:
  "distinct (outgoingOrder env_seven) \<and>
   sorts_by (\<lambda>a b. tgtScore a > tgtScore b) (sortCands env_seven (\<lambda>a b. tgtScore a > tgtScore b)) \<and>
   length (Nodes (buildDeclGraph env_seven ms_seven Map.empty)) = 7 \<and>
   length (Links (buildDeclGraph env_seven ms_seven Map.empty)) = 21 \<and>
   length (Links (buildDeclGraph env_seven ms_seven Map.empty))
     \<le> max 10 (3 * length (Nodes (buildDeclGraph env_seven ms_seven Map.empty))) \<and>
   length (filter (\<lambda>l. Source l = ''m.go::Ant'') (Links (buildDeclGraph env_seven ms_seven Map.empty))) = 5"
proof -
  have d: "distinct (outgoingOrder env_seven)" by (simp add: env_seven_def)
  have s: "sorts_by (\<lambda>a b. tgtScore a > tgtScore b) (sortCands env_seven (\<lambda>a b. tgtScore a > tgtScore b))"
    by (simp add: env_seven_def isortBy_tgtScore)
  from buildDeclGraph_caps [OF d s, of ms_seven Map.empty]
  have "length (Links (buildDeclGraph env_seven ms_seven Map.empty))
     \<le> max 10 (3 * length (Nodes (buildDeclGraph env_seven ms_seven Map.empty)))" by blast
  with d s seven_eval show ?thesis by (intro conjI) simp_all
qed

lemma proto_decls: "collectDecls ms_proto = [di_Echo, di_Ping, di_Reply]"
  by code_simp

lemma proto_hits:
  "matchGoTypeRef svc_content ''Ping'' \<and> matchGoTypeRef svc_content ''Lookup'' \<and>
   matchGoTypeRef svc_content ''Reply''"
  by code_simp

lemma proto_result:
  "lookupList (outgoing (declEdges env_proto (Files ms_proto) (mkNodeScores Map.empty (collectDecls ms_proto))
      (collectDecls ms_proto))) ''svc.proto::Echo'' = [\<lparr>target = ''reply.proto::Reply'', tgtScore = 0.001\<rparr>] \<and>
   Links (buildDeclGraph env_proto ms_proto Map.empty) =
     [\<lparr>Source = ''svc.proto::Echo'', Target = ''reply.proto::Reply''\<rparr>]"
  by code_simp

lemma collide_service:
  "di_Svc \<in> set (collectDecls ms_collide) \<and> di_Msg \<in> set (collectDecls ms_collide) \<and>
   kind di_Svc = DeclService \<and> kind di_Msg = DeclMessage \<and> 4 < length (name di_Msg) \<and>
   readFile env_collide (fp di_Svc) = Some ''Svc Msgxx->a::Other'' \<and>
   matchGoTypeRef ''Svc Msgxx->a::Other'' (name di_Msg) \<and>
   \<not> has_candidate (declEdges env_collide (Files ms_collide) (mkNodeScores Map.empty (collectDecls ms_collide))
        (collectDecls ms_collide)) (nodeID di_Svc) (nodeID di_Msg)"
  by code_simp

text \<open>
  The claim C2 as first stated fails. In \<open>ms_proto\<close> the service \<open>Echo\<close>'s file mentions, at
  word boundaries, the message \<open>Ping\<close> (4 characters) and the rpc \<open>Lookup\<close>, yet the only
  candidate and the only link go to the message \<open>Reply\<close>. And in \<open>ms_collide\<close>, where names
  contain \<open>->\<close>, the key of the edge from the service to the message was already taken
  by another pair, so the hit adds no candidate.
\<close>

theorem service_edge_counterexample:
  "collectDecls ms_proto = [di_Echo, di_Ping, di_Reply] \<and>
   kind di_Echo = DeclService \<and> readFile env_proto (fp di_Echo) = Some svc_content \<and>
   kind di_Ping = DeclMessage \<and> word_boundary_occurrence svc_content (name di_Ping) \<and>
   \<lparr>Name = ''Lookup'', Kind = DeclRPC\<rparr> \<in> set (Declarations (hd (Files ms_proto))) \<and>
   word_boundary_occurrence svc_content ''Lookup'' \<and>
   lookupList (outgoing (declEdges env_proto (Files ms_proto) (mkNodeScores Map.empty (collectDecls ms_proto))
      (collectDecls ms_proto))) (nodeID di_Echo) = [\<lparr>target = nodeID di_Reply, tgtScore = 0.001\<rparr>] \<and>
   Links (buildDeclGraph env_proto ms_proto Map.empty) =
     [\<lparr>Source = nodeID di_Echo, Target = nodeID di_Reply\<rparr>] \<and>
   di_Svc \<in> set (collectDecls ms_collide) \<and> di_Msg \<in> set (collectDecls ms_collide) \<and>
   kind di_Svc = DeclService \<and> kind di_Msg = DeclMessage \<and> 4 < length (name di_Msg) \<and>
   readFile env_collide (fp di_Svc) = Some ''Svc Msgxx->a::Other'' \<and>
   word_boundary_occurrence ''Svc Msgxx->a::Other'' (name di_Msg) \<and>
   \<not> has_candidate (declEdges env_collide (Files ms_collide) (mkNodeScores Map.empty (collectDecls ms_collide))
        (collectDecls ms_collide)) (nodeID di_Svc) (nodeID di_Msg)"
proof -
  have ids: "nodeID di_Echo = ''svc.proto::Echo''" "nodeID di_Reply = ''reply.proto::Reply''"
    by (simp_all add: nodeID_def di_Echo_def di_Reply_def)
  have "kind di_Echo = DeclService" "readFile env_proto (fp di_Echo) = Some svc_content"
    "kind di_Ping = DeclMessage" "name di_Ping = ''Ping''"
    "\<lparr>Name = ''Lookup'', Kind = DeclRPC\<rparr> \<in> set (Declarations (hd (Files ms_proto)))"
    by (simp_all add: di_Echo_def di_Ping_def env_proto_def ms_proto_def)
  with proto_decls proto_hits proto_result collide_service show ?thesis
    by (simp only: ids matchGoTypeRef_word_boundary simp_thms)
qed

theorem service_message_candidate_witness:
  "CHR ''>'' \<notin> set (nodeID di_Echo) \<and> CHR ''>'' \<notin> set (nodeID di_Ping) \<and> CHR ''>'' \<notin> set (nodeID di_Reply) \<and>
   di_Echo \<in> set (collectDecls ms_proto) \<and> kind di_Echo = DeclService \<and>
   fp di_Echo \<in> FilePath ` set (Files ms_proto) \<and> readFile env_proto (fp di_Echo) = Some svc_content \<and>
   svc_content \<noteq> [] \<and> di_Reply \<in> set (collectDecls ms_proto) \<and> kind di_Reply = DeclMessage \<and>
   4 < length (name di_Reply) \<and> word_boundary_occurrence svc_content (name di_Reply) \<and>
   has_candidate (declEdges env_proto (Files ms_proto) (mkNodeScores Map.empty (collectDecls ms_proto))
      (collectDecls ms_proto)) (nodeID di_Echo) (nodeID di_Reply)"
proof -
  have gt: "CHR ''>'' \<notin> set (nodeID di_Echo)" "CHR ''>'' \<notin> set (nodeID di_Ping)"
    "CHR ''>'' \<notin> set (nodeID di_Reply)"
    by (simp_all add: nodeID_def di_Echo_def di_Ping_def di_Reply_def)
  then have all: "\<forall>d \<in> set (collectDecls ms_proto). CHR ''>'' \<notin> set (nodeID d)"
    by (simp add: proto_decls)
  have src1: "di_Echo \<in> set (collectDecls ms_proto)" by (simp add: proto_decls)
  have src2: "kind di_Echo = DeclService"
    "fp di_Echo \<in> FilePath ` set (Files ms_proto)" "readFile env_proto (fp di_Echo) = Some svc_content"
    "svc_content \<noteq> []"
    by (simp_all add: di_Echo_def ms_proto_def env_proto_def svc_content_def)
  note src = src1 src2
  have tgt: "di_Reply \<in> set (collectDecls ms_proto)" "kind di_Reply = DeclMessage"
    "4 < length (name di_Reply)"
    by (simp_all add: proto_decls di_Reply_def)
  have "name di_Reply = ''Reply''" by (simp add: di_Reply_def)
  with proto_hits have hit: "word_boundary_occurrence svc_content (name di_Reply)"
    by (simp only: matchGoTypeRef_word_boundary)
  from service_message_candidate [OF all src tgt hit] gt src tgt hit show ?thesis
    by (intro conjI)
qed





end
